theory Spec2Isabelle
  imports Main "HOL-Library.Sublist" "HOL-Library.Monad_Syntax"
begin

section \<open>Strings and character classes\<close>

text \<open>
  A Python \<open>str\<close> is modelled as a \<open>string\<close>, each \<open>char\<close> standing for the code point
  of the same number (0 to 255). Code points above 255 are outside the model; in
  particular the bullet U+2022 of the list-marker pattern cannot occur in a modelled
  string. The character classes below are those of Python 3 on that range:
  \<open>\<bslash>s\<close> and \<open>str.strip\<close> use \<open>str.isspace\<close>, \<open>\<bslash>w\<close> uses \<open>str.isalnum\<close> or an underscore,
  \<open>\<bslash>d\<close> the decimal digits.
\<close>

abbreviation newline :: char where "newline \<equiv> CHR 0x0A"
abbreviation tab :: char where "tab \<equiv> CHR 0x09"
abbreviation dquote :: char where "dquote \<equiv> CHR 0x22"
abbreviation squote :: char where "squote \<equiv> CHR 0x27"
abbreviation bslash :: char where "bslash \<equiv> CHR 0x5C"
abbreviation backtick :: char where "backtick \<equiv> CHR 0x60"

definition code :: "char \<Rightarrow> nat" where
  "code c = of_char c"

definition is_space :: "char \<Rightarrow> bool" where
  "is_space c = ((9 \<le> code c \<and> code c \<le> 13) \<or> (28 \<le> code c \<and> code c \<le> 32)
                 \<or> code c = 133 \<or> code c = 160)"

definition is_digit :: "char \<Rightarrow> bool" where
  "is_digit c = (48 \<le> code c \<and> code c \<le> 57)"

definition is_word :: "char \<Rightarrow> bool" where
  "is_word c = (is_digit c \<or> (65 \<le> code c \<and> code c \<le> 90) \<or> c = CHR ''_''
                \<or> (97 \<le> code c \<and> code c \<le> 122)
                \<or> code c \<in> {170, 178, 179, 181, 185, 186, 188, 189, 190}
                \<or> (192 \<le> code c \<and> code c \<noteq> 215 \<and> code c \<noteq> 247))"

text \<open>The characters the pattern \<open>[^\x20-\x7E\n\t]\<close> does not match.\<close>

definition is_printable :: "char \<Rightarrow> bool" where
  "is_printable c = ((32 \<le> code c \<and> code c \<le> 126) \<or> c = newline \<or> c = tab)"

text \<open>\<open>str.lower\<close>, one character at a time.\<close>

definition lower_char :: "char \<Rightarrow> char" where
  "lower_char c =
     (if (65 \<le> code c \<and> code c \<le> 90) \<or> (192 \<le> code c \<and> code c \<le> 222 \<and> code c \<noteq> 215)
      then char_of (code c + 32) else c)"

definition lower :: "string \<Rightarrow> string" where
  "lower s = map lower_char s"

text \<open>\<open>str.strip()\<close> with no argument: whitespace is removed at both ends.\<close>

definition strip :: "string \<Rightarrow> string" where
  "strip s = rev (dropWhile is_space (rev (dropWhile is_space s)))"

text \<open>\<open>p in s\<close> for strings: some suffix of \<open>s\<close> starts with \<open>p\<close>.\<close>

fun str_in :: "string \<Rightarrow> string \<Rightarrow> bool" where
  "str_in p [] = (p = [])"
| "str_in p (c # cs) = (prefix p (c # cs) \<or> str_in p cs)"

section \<open>Regular-expression substitution and search\<close>

text \<open>
  \<open>re.sub(pattern, repl, s)\<close> scans \<open>s\<close> from the left. At each position the pattern is
  tried; when it matches, the replacement is emitted and the scan goes on right after the
  match, otherwise the character is copied and the scan moves one position on. A pattern
  is given as its matcher: on the rest of the input it returns the text to emit and the
  input left after the match. None of the patterns of this program matches the empty
  string, so a match always consumes a character; the scan copies the character when a
  matcher does not.
\<close>

type_synonym matcher = "string \<Rightarrow> (string \<times> string) option"

function re_sub :: "matcher \<Rightarrow> string \<Rightarrow> string" where
  "re_sub m [] = []"
| "re_sub m (c # cs) =
     (case m (c # cs) of
        None \<Rightarrow> c # re_sub m cs
      | Some (out, rest) \<Rightarrow>
          if length rest \<le> length cs then out @ re_sub m rest else c # re_sub m cs)"
  by pat_completeness auto
termination
  by (relation "measure (\<lambda>(m, s). length s)") auto

text \<open>\<open>str.replace(old, new)\<close> for a non-empty \<open>old\<close>: the same scan with a literal pattern.\<close>

definition m_lit :: "string \<Rightarrow> string \<Rightarrow> matcher" where
  "m_lit old new s = (if old \<noteq> [] \<and> prefix old s then Some (new, drop (length old) s) else None)"

definition replace :: "string \<Rightarrow> string \<Rightarrow> string \<Rightarrow> string" where
  "replace old new s = re_sub (m_lit old new) s"

text \<open>
  Pieces of a pattern, each taking the input at the current position and returning the
  input left after it, or \<open>None\<close> when it does not match there. \<open>plus P\<close> is a greedy
  \<open>[P]+\<close> and \<open>star P\<close> a greedy \<open>[P]*\<close>. Taking the longest run is what the
  backtracking matcher of Python settles on wherever the piece that follows cannot start
  with a character of the class, which holds at every use below unless said otherwise.
\<close>

definition lit :: "string \<Rightarrow> string \<Rightarrow> string option" where
  "lit l s = (if prefix l s then Some (drop (length l) s) else None)"

definition one :: "(char \<Rightarrow> bool) \<Rightarrow> string \<Rightarrow> string option" where
  "one P s = (case s of [] \<Rightarrow> None | c # cs \<Rightarrow> if P c then Some cs else None)"

definition plus :: "(char \<Rightarrow> bool) \<Rightarrow> string \<Rightarrow> string option" where
  "plus P s = (case s of [] \<Rightarrow> None | c # cs \<Rightarrow> if P c then Some (dropWhile P cs) else None)"

definition star :: "(char \<Rightarrow> bool) \<Rightarrow> string \<Rightarrow> string option" where
  "star P s = Some (dropWhile P s)"

section \<open>The text normalizer: \<open>clean_text\<close>\<close>

definition is_excl :: "char \<Rightarrow> bool" where
  "is_excl c = (c = CHR ''!'')"

text \<open>\<open>\<bslash>s+!+\<bslash>s+\<close>, replaced by one space.\<close>

definition m_isolated_excl :: matcher where
  "m_isolated_excl s =
     do { s1 \<leftarrow> plus is_space s; s2 \<leftarrow> plus is_excl s1; s3 \<leftarrow> plus is_space s2;
          Some ('' '', s3) }"

text \<open>\<open>!{2,}\<close>, replaced by one exclamation mark.\<close>

definition m_multi_excl :: matcher where
  "m_multi_excl s = do { s1 \<leftarrow> lit ''!!'' s; s2 \<leftarrow> star is_excl s1; Some (''!'', s2) }"

text \<open>\<open>\<bslash>s+[^\<bslash>w\<bslash>s\<bslash>.\<bslash>,\<bslash>!\<bslash>?\<bslash>-\<bslash>(\<bslash>)]+\<bslash>s+\<close>, replaced by one space.\<close>

definition is_artifact :: "char \<Rightarrow> bool" where
  "is_artifact c = (\<not> is_word c \<and> \<not> is_space c \<and> c \<notin> set ''.,!?-()'')"

definition m_artifact :: matcher where
  "m_artifact s =
     do { s1 \<leftarrow> plus is_space s; s2 \<leftarrow> plus is_artifact s1; s3 \<leftarrow> plus is_space s2;
          Some ('' '', s3) }"

text \<open>\<open>\<bslash>s+\<close>, replaced by one space.\<close>

definition m_spaces :: matcher where
  "m_spaces s = do { s1 \<leftarrow> plus is_space s; Some ('' '', s1) }"

text \<open>The four steps of \<open>clean_text\<close>, in the order of the source.\<close>

definition html_entities :: "(string \<times> string) list" where
  "html_entities =
     [(''&quot;'', [dquote]), (''&ldquo;'', [dquote]), (''&rdquo;'', [dquote]),
      (''&lsquo;'', [squote]), (''&rsquo;'', [squote]), (''&apos;'', [squote]),
      (''&amp;'', ''&''), (''&lt;'', ''<''), (''&gt;'', ''>''), (''&nbsp;'', '' '')]"

text \<open>The ten \<open>text = text.replace(entity, character)\<close> statements, run in their order.\<close>

definition replace_entities :: "string \<Rightarrow> string" where
  "replace_entities text = foldl (\<lambda>text (entity, character). replace entity character text) text html_entities"

definition remove_escapes :: "string \<Rightarrow> string" where
  "remove_escapes text =
     (let text = replace [bslash, dquote] [dquote] text;
          text = replace [bslash, squote] [squote] text;
          text = replace [bslash, bslash] [bslash] text;
          text = replace [bslash, CHR ''.''] ''.'' text;
          text = replace [bslash, CHR '',''] '','' text;
          text = replace [bslash, CHR ''!''] ''!'' text;
          text = replace [bslash, CHR ''?''] ''?'' text;
          text = replace [bslash] [] text
      in text)"

definition remove_artifacts :: "string \<Rightarrow> string" where
  "remove_artifacts text =
     (let text = filter is_printable text;
          text = re_sub m_isolated_excl text;
          text = re_sub m_multi_excl text;
          text = re_sub m_artifact text
      in text)"

definition normalize_whitespace :: "string \<Rightarrow> string" where
  "normalize_whitespace text = strip (re_sub m_spaces text)"

definition clean_text :: "string \<Rightarrow> string" where
  "clean_text text =
     (if text = [] then []
      else normalize_whitespace (remove_artifacts (remove_escapes (replace_entities text))))"

section \<open>The markdown cleaner: \<open>clean_markdown_content\<close>\<close>

text \<open>
  \<open>(.*?)\<close> followed by the literal \<open>d\<close> that ends the pattern: the shortest run of
  characters after which \<open>d\<close> stands. Without \<open>re.DOTALL\<close> the dot does not match a
  newline. The result is the group and the input left after \<open>d\<close>.
\<close>

fun lazy_dot :: "bool \<Rightarrow> string \<Rightarrow> string \<Rightarrow> (string \<times> string) option" where
  "lazy_dot dotall d [] = (if d = [] then Some ([], []) else None)"
| "lazy_dot dotall d (c # cs) =
     (if prefix d (c # cs) then Some ([], drop (length d) (c # cs))
      else if c = newline \<and> \<not> dotall then None
      else map_option (\<lambda>(g, r). (c # g, r)) (lazy_dot dotall d cs))"

text \<open>
  \<open>\<bslash>*\<bslash>*(.*?)\<bslash>*\<bslash>*\<close>, \<open>\<bslash>*(.*?)\<bslash>*\<close>, \<open>_(.*?)_\<close> and the same between backticks, each
  replaced by its group: a delimiter, the shortest text on the line, the delimiter.
\<close>

definition m_delimited :: "string \<Rightarrow> matcher" where
  "m_delimited d s = do { s1 \<leftarrow> lit d s; lazy_dot False d s1 }"

text \<open>\<open>\<bslash>[([^\<bslash>]]*)\<bslash>]\<bslash>([^)]*\<bslash>)\<close>, replaced by its group (the link text).\<close>

definition m_link :: matcher where
  "m_link s =
     do { s1 \<leftarrow> lit ''['' s;
          s2 \<leftarrow> lit '']('' (dropWhile (\<lambda>c. c \<noteq> CHR '']'') s1);
          s3 \<leftarrow> lit '')'' (dropWhile (\<lambda>c. c \<noteq> CHR '')'') s2);
          Some (takeWhile (\<lambda>c. c \<noteq> CHR '']'') s1, s3) }"

text \<open>
  With \<open>re.MULTILINE\<close> a pattern that starts with \<open>^\<close> is tried only at the start of the
  string and right after a newline of the input. The flag of the scan says whether the
  current position is such a place.
\<close>

function re_sub_multiline :: "matcher \<Rightarrow> bool \<Rightarrow> string \<Rightarrow> string" where
  "re_sub_multiline m bol [] = []"
| "re_sub_multiline m bol (c # cs) =
     (case (if bol then m (c # cs) else None) of
        None \<Rightarrow> c # re_sub_multiline m (c = newline) cs
      | Some (out, rest) \<Rightarrow>
          if length rest \<le> length cs
          then out @ re_sub_multiline m (last (take (Suc (length cs) - length rest) (c # cs)) = newline) rest
          else c # re_sub_multiline m (c = newline) cs)"
  by pat_completeness auto
termination
  by (relation "measure (\<lambda>(m, b, s). length s)") auto

text \<open>\<open>^[-*\<bullet>]\<bslash>s*\<close>, \<open>^\<bslash>d+\<bslash>.\<bslash>s*\<close> and \<open>^>\<bslash>s*\<close>, each replaced by nothing.\<close>

definition m_list_marker :: matcher where
  "m_list_marker s = do { s1 \<leftarrow> one (\<lambda>c. c \<in> set ''-*'') s; s2 \<leftarrow> star is_space s1; Some ([], s2) }"

definition m_numbered :: matcher where
  "m_numbered s =
     do { s1 \<leftarrow> plus is_digit s; s2 \<leftarrow> lit ''.'' s1; s3 \<leftarrow> star is_space s2; Some ([], s3) }"

definition m_blockquote :: matcher where
  "m_blockquote s = do { s1 \<leftarrow> lit ''>'' s; s2 \<leftarrow> star is_space s1; Some ([], s2) }"

text \<open>
  Three backticks, \<open>(\<bslash>w+)?\<close>, a newline, \<open>(.*?)\<close> and three backticks, with
  \<open>re.DOTALL\<close>; replaced by the line \<open>CODE BLOCK:\<close> and the second group.
\<close>

definition m_code_fence :: matcher where
  "m_code_fence s =
     do { s1 \<leftarrow> lit [backtick, backtick, backtick] s;
          s2 \<leftarrow> star is_word s1;
          s3 \<leftarrow> lit [newline] s2;
          (body, rest) \<leftarrow> lazy_dot True [backtick, backtick, backtick] s3;
          Some (''CODE BLOCK:'' @ [newline] @ body, rest) }"

text \<open>
  \<open>\<bslash>n\<bslash>s*\<bslash>n\<close>, replaced by two newlines. The greedy \<open>\<bslash>s*\<close> takes the whole
  whitespace run and is then backed off to the last newline of the run, which closes the
  match; the whitespace after that newline is left in the input.
\<close>

definition m_blank_lines :: matcher where
  "m_blank_lines s =
     do { s1 \<leftarrow> lit [newline] s;
          if newline \<in> set (takeWhile is_space s1)
          then Some ([newline, newline],
                     rev (takeWhile (\<lambda>c. c \<noteq> newline) (rev (takeWhile is_space s1)))
                       @ dropWhile is_space s1)
          else None }"

text \<open>\<open>[ \<bslash>t]+\<close>, replaced by one space.\<close>

definition m_blanks :: matcher where
  "m_blanks s = do { s1 \<leftarrow> plus (\<lambda>c. c = CHR '' '' \<or> c = tab) s; Some ('' '', s1) }"

definition clean_markdown_content :: "string \<Rightarrow> string" where
  "clean_markdown_content markdown_content =
     (if markdown_content = [] then []
      else
        let content = re_sub (m_delimited ''**'') markdown_content;
            content = re_sub (m_delimited ''*'') content;
            content = re_sub (m_delimited ''_'') content;
            content = re_sub (m_delimited [backtick]) content;
            content = re_sub m_link content;
            content = re_sub_multiline m_list_marker True content;
            content = re_sub_multiline m_numbered True content;
            content = re_sub_multiline m_blockquote True content;
            content = re_sub m_code_fence content;
            content = remove_escapes content;
            content = filter is_printable content;
            content = re_sub m_isolated_excl content;
            content = re_sub m_multi_excl content;
            content = re_sub m_blank_lines content;
            content = re_sub m_blanks content
        in strip content)"


section \<open>The image classifier\<close>

definition skip_patterns :: "string list" where
  "skip_patterns =
     [''avatar'', ''profile'', ''user'', ''author'', ''writer'', ''contributor'',
      ''icon'', ''logo'', ''button'', ''badge'', ''emoji'', ''social'',
      ''thumb'', ''thumbnail'', ''small'', ''tiny'', ''mini'',
      ''36x36'', ''48x48'', ''64x64'', ''128x128'',
      ''w_36'', ''w_48'', ''w_64'', ''h_36'', ''h_48'', ''h_64'',
      ''substack.com/@'',
      ''bucketeer-e05bbc84-baa3-437e-9518-adb32be77984.s3.amazonaws.com'']"

definition is_content_image :: "string \<Rightarrow> string \<Rightarrow> bool" where
  "is_content_image src alt =
     (let src_lower = lower src; alt_lower = lower alt in
      if list_ex (\<lambda>pattern. str_in pattern src_lower \<or> str_in pattern alt_lower) skip_patterns
        then False
      else if list_ex (\<lambda>size. str_in size src) [''w_36'', ''w_48'', ''w_64'', ''h_36'', ''h_48'', ''h_64'']
        then False
      else if str_in ''substack.com/@'' src
              \<or> str_in ''bucketeer-e05bbc84-baa3-437e-9518-adb32be77984.s3.amazonaws.com'' src
        then False
      else if alt \<noteq> [] \<and> length alt > 3 then True
      else if list_ex (\<lambda>size. str_in size src)
                [''w_520'', ''w_1456'', ''w_1024'', ''w_800'', ''h_272'', ''h_1369'', ''h_1100'']
        then True
      else True)"

text \<open>
  \<open>re.search\<close> returns the match at the leftmost position where the pattern matches; the
  matcher gives the group that is read from the match.
\<close>

fun re_search :: "(string \<Rightarrow> 'a option) \<Rightarrow> string \<Rightarrow> 'a option" where
  "re_search m [] = m []"
| "re_search m (c # cs) = (case m (c # cs) of Some g \<Rightarrow> Some g | None \<Rightarrow> re_search m cs)"

text \<open>The class \<open>[a-f0-9-]\<close>.\<close>

definition is_id_char :: "char \<Rightarrow> bool" where
  "is_id_char c = ((97 \<le> code c \<and> code c \<le> 102) \<or> is_digit c \<or> c = CHR ''-'')"

text \<open>\<open>([a-f0-9-]+)_\<bslash>d+x\<bslash>d+\<bslash>.(png|jpg|jpeg)\<close>; the result is the first group.\<close>

definition m_image_id :: "string \<Rightarrow> string option" where
  "m_image_id s =
     do { s1 \<leftarrow> plus is_id_char s;
          s2 \<leftarrow> lit ''_'' s1;
          s3 \<leftarrow> plus is_digit s2;
          s4 \<leftarrow> lit ''x'' s3;
          s5 \<leftarrow> plus is_digit s4;
          s6 \<leftarrow> lit ''.'' s5;
          if prefix ''png'' s6 \<or> prefix ''jpg'' s6 \<or> prefix ''jpeg'' s6
          then Some (takeWhile is_id_char s) else None }"

text \<open>\<open>([a-f0-9-]{20,})\<close>; the result is the group.\<close>

definition m_unique_id :: "string \<Rightarrow> string option" where
  "m_unique_id s = (if length (takeWhile is_id_char s) \<ge> 20 then Some (takeWhile is_id_char s) else None)"

text \<open>\<open>[?&]w=\<bslash>d+\<close> and \<open>[?&]h=\<bslash>d+\<close>, then \<open>[?&]c_limit\<close> and \<open>[?&]c_fill\<close>; each replaced by nothing.\<close>

definition is_query_sep :: "char \<Rightarrow> bool" where
  "is_query_sep c = (c = CHR ''?'' \<or> c = CHR ''&'')"

definition m_query_number :: "string \<Rightarrow> matcher" where
  "m_query_number name s =
     do { s1 \<leftarrow> one is_query_sep s; s2 \<leftarrow> lit name s1; s3 \<leftarrow> plus is_digit s2; Some ([], s3) }"

definition m_query_flag :: "string \<Rightarrow> matcher" where
  "m_query_flag name s = do { s1 \<leftarrow> one is_query_sep s; s2 \<leftarrow> lit name s1; Some ([], s2) }"

definition extract_base_image_url :: "string \<Rightarrow> string" where
  "extract_base_image_url url =
     (if url = [] then []
      else
        case (if str_in ''substackcdn.com'' url
              then (case re_search m_image_id url of
                      Some image_id \<Rightarrow> Some (''image_id_'' @ image_id)
                    | None \<Rightarrow>
                        (case re_search m_unique_id url of
                           Some unique \<Rightarrow> Some (''unique_'' @ unique)
                         | None \<Rightarrow> None))
              else None) of
          Some key \<Rightarrow> key
        | None \<Rightarrow>
            let url = re_sub (m_query_number ''w='') url;
                url = re_sub (m_query_number ''h='') url;
                url = re_sub (m_query_flag ''c_limit'') url;
                url = re_sub (m_query_flag ''c_fill'') url
            in url)"


section \<open>The content extractor\<close>

text \<open>
  The image loop of \<open>extract_article_content\<close>: \<open>images\<close> holds the \<open>src\<close> and \<open>alt\<close>
  attributes of the \<open>img\<close> tags in document order (an absent attribute reads as the
  empty string), \<open>seen_urls\<close> is the set of base keys met so far and \<open>kept\<close> the list
  \<open>current_article_images\<close>.
\<close>

fun collect_images ::
  "(string \<times> string) list \<Rightarrow> string set \<Rightarrow> (string \<times> string) list \<Rightarrow> (string \<times> string) list" where
  "collect_images [] seen_urls kept = kept"
| "collect_images ((src, alt) # images) seen_urls kept =
     (if src \<noteq> [] \<and> prefix ''http'' src then
        if is_content_image src alt then
          if extract_base_image_url src \<notin> seen_urls
          then collect_images images (insert (extract_base_image_url src) seen_urls) (kept @ [(src, alt)])
          else collect_images images seen_urls kept
        else collect_images images seen_urls kept
      else collect_images images seen_urls kept)"

text \<open>\<open>s.split(sep)\<close> for a non-empty separator, and \<open>sep.join(parts)\<close>.\<close>

function split_on :: "string \<Rightarrow> string \<Rightarrow> string list" where
  "split_on sep [] = [[]]"
| "split_on sep (c # cs) =
     (if sep \<noteq> [] \<and> prefix sep (c # cs) then [] # split_on sep (drop (length sep) (c # cs))
      else (case split_on sep cs of [] \<Rightarrow> [[c]] | part # parts \<Rightarrow> (c # part) # parts))"
  by pat_completeness auto
termination
  by (relation "measure (\<lambda>(sep, s). length s)") (auto simp: neq_Nil_conv)

fun join :: "string \<Rightarrow> string list \<Rightarrow> string" where
  "join sep [] = []"
| "join sep [part] = part"
| "join sep (part # parts) = part @ sep @ join sep parts"

definition structure_content :: "string \<Rightarrow> string" where
  "structure_content content =
     (if content = [] then []
      else join [newline, newline]
             (filter (\<lambda>paragraph. paragraph \<noteq> [] \<and> length paragraph > 20)
                (map strip (split_on [newline, newline] content))))"

text \<open>
  The HTML parser, the HTTP client and the HTML-to-markdown converter are libraries
  outside the repository; the extractor is modelled over their operations. A parsed page
  is a value of type \<open>'soup\<close>, which \<open>decompose\<close> changes, and a tag of it a value of type
  \<open>'elem\<close>:
  \<^item> \<open>fetch_page url\<close> is the page got and parsed, its \<open>script\<close>, \<open>style\<close> and \<open>noscript\<close>
    tags removed, or \<open>None\<close> when any of this raises;
  \<^item> \<open>select_one\<close> and \<open>find_body\<close> are \<open>soup.select_one(selector)\<close> and \<open>soup.find('body')\<close>;
  \<^item> \<open>strip_boilerplate\<close> is the two \<open>decompose\<close> loops run on a selected tag (the tags
    \<open>nav\<close>, \<open>header\<close>, \<open>footer\<close>, \<open>aside\<close>, then the classes of the pattern), and
    \<open>strip_body\<close> the one loop run on the body;
  \<^item> \<open>get_text\<close> is \<open>get_text(separator='\<bslash>n', strip=True)\<close>, \<open>find_images\<close> the \<open>src\<close> and
    \<open>alt\<close> of the tags of \<open>find_all('img')\<close>, \<open>to_html\<close> is \<open>str(content_elem)\<close> and
    \<open>html_to_markdown\<close> is \<open>self.h2t.handle\<close>.
  A tag counts as true in a condition, so \<open>if content_elem\<close> and \<open>if body\<close> ask whether a
  tag was found. An exception raised inside \<open>extract_article_content\<close> makes it return
  \<open>None\<close>; the model has this for the fetch, and takes the other operations to return.
\<close>

record ('soup, 'elem) library =
  fetch_page :: "string \<Rightarrow> 'soup option"
  select_one :: "'soup \<Rightarrow> string \<Rightarrow> 'elem option"
  find_body :: "'soup \<Rightarrow> 'elem option"
  strip_boilerplate :: "'soup \<Rightarrow> 'elem \<Rightarrow> 'soup"
  strip_body :: "'soup \<Rightarrow> 'elem \<Rightarrow> 'soup"
  get_text :: "'soup \<Rightarrow> 'elem \<Rightarrow> string"
  find_images :: "'soup \<Rightarrow> 'elem \<Rightarrow> (string \<times> string) list"
  to_html :: "'soup \<Rightarrow> 'elem \<Rightarrow> string"
  html_to_markdown :: "string \<Rightarrow> string"

definition content_selectors :: "string list" where
  "content_selectors =
     [''article'', ''.post-content'', ''.entry-content'', ''.content'', ''.post-body'', ''main'',
      ''.main-content'', ''#content'', ''.article-content'', ''.post'', ''.entry'', ''.blog-post'',
      ''.post-text'', ''.entry-text'', ''.post-body'', ''.content-body'', ''.article-body'',
      ''.post-content'', ''.entry-content'', ''.blog-entry'', ''.post-entry'', ''#primary'']"

text \<open>The variables of the selector loop. \<open>None\<close> is Python's \<open>None\<close>.\<close>

record ('soup, 'elem) selection =
  soup :: 'soup
  content :: "string option"
  used_selector :: "string option"
  content_elem :: "'elem option"

text \<open>
  The \<open>for selector in content_selectors\<close> loop. Each round assigns \<open>content_elem\<close>; a
  round whose tag is found assigns \<open>content\<close> as well, and leaves the loop (\<open>break\<close>) with
  \<open>used_selector\<close> set when the text is longer than 500 characters.
\<close>

fun try_selectors ::
  "('soup, 'elem) library \<Rightarrow> string list \<Rightarrow> ('soup, 'elem) selection \<Rightarrow> ('soup, 'elem) selection" where
  "try_selectors lib [] st = st"
| "try_selectors lib (selector # selectors) st =
     (case select_one lib (soup st) selector of
        None \<Rightarrow> try_selectors lib selectors (st\<lparr>content_elem := None\<rparr>)
      | Some elem \<Rightarrow>
          let soup' = strip_boilerplate lib (soup st) elem;
              text = get_text lib soup' elem;
              st' = st\<lparr>soup := soup', content := Some text, content_elem := Some elem\<rparr>
          in if length text > 500 then st'\<lparr>used_selector := Some selector\<rparr>
             else try_selectors lib selectors st')"

text \<open>\<open>if not content\<close>: the content is \<open>None\<close> or the empty string.\<close>

definition falsy :: "string option \<Rightarrow> bool" where
  "falsy v = (v = None \<or> v = Some [])"

definition find_content :: "('soup, 'elem) library \<Rightarrow> 'soup \<Rightarrow> ('soup, 'elem) selection" where
  "find_content lib page =
     (let st = try_selectors lib content_selectors
                 \<lparr>soup = page, content = None, used_selector = None, content_elem = None\<rparr>
      in if falsy (content st) then
           (case find_body lib (soup st) of
              None \<Rightarrow> st
            | Some body \<Rightarrow>
                let soup' = strip_body lib (soup st) body
                in st\<lparr>soup := soup', content := Some (get_text lib soup' body),
                       used_selector := Some ''body'', content_elem := Some body\<rparr>)
         else st)"

text \<open>
  \<open>extract_article_content\<close>: the result is the cleaned content or \<open>None\<close>, together with
  the attribute \<open>current_article_images\<close>, which is assigned only when content was found.
\<close>

definition extract_article_content ::
  "('soup, 'elem) library \<Rightarrow> (string \<times> string) list \<Rightarrow> string
     \<Rightarrow> string option \<times> (string \<times> string) list" where
  "extract_article_content lib current_article_images article_url =
     (let clean_url = takeWhile (\<lambda>c. c \<noteq> CHR ''#'') article_url in
      case fetch_page lib clean_url of
        None \<Rightarrow> (None, current_article_images)
      | Some page \<Rightarrow>
          let st = find_content lib page in
          if falsy (content st) then (None, current_article_images)
          else
            let images = (case content_elem st of
                            None \<Rightarrow> []
                          | Some elem \<Rightarrow> collect_images (find_images lib (soup st) elem) {} []);
                markdown_content =
                  html_to_markdown lib
                    (case content_elem st of
                       Some elem \<Rightarrow> to_html lib (soup st) elem
                     | None \<Rightarrow> structure_content (the (content st)))
            in (Some (clean_markdown_content markdown_content), images))"


section \<open>The document assembler: \<open>create_pdf\<close>\<close>

datatype style =
  title_style | subtitle_style | section_style | meta_style | content_style
  | quote_style | list_style | image_style | code_style

text \<open>
  The flowables of the rendering library that the program builds. \<open>Paragraph\<close>, \<open>Spacer\<close> and
  \<open>Image\<close> are the ones \<open>add_formatted_content_to_story\<close> and the functions it calls append;
  \<open>PageBreak\<close> is built in \<open>create_pdf\<close> only. An image is kept as its width and height.
\<close>

datatype element = Paragraph string style | Spacer nat nat | Image nat nat

datatype flowable = Flow element | PageBreak

record article =
  title :: string
  link :: string
  published :: string
  author :: string

text \<open>
  What \<open>create_pdf\<close> takes from outside the repository: the libraries of the extractor,
  the articles \<open>fetch_rss_feed\<close> returns for a feed (the empty list when the feed fails),
  the formatted time of the run, and the elements that \<open>add_formatted_content_to_story\<close>
  appends for a content, given the images stored for the article (it downloads them).
  The constructors of the rendering library are taken to return; where one raises,
  \<open>create_pdf\<close> raises too and no story is built.
\<close>

record ('soup, 'elem) world =
  library :: "('soup, 'elem) library"
  fetch_rss_feed :: "string \<Rightarrow> article list"
  now :: string
  add_formatted_content_to_story :: "(string \<times> string) list \<Rightarrow> string \<Rightarrow> element list"

text \<open>The decimal numeral of a number, as an f-string prints it.\<close>

fun string_of_nat :: "nat \<Rightarrow> string" where
  "string_of_nat n =
     (if n < 10 then [char_of (48 + n)] else string_of_nat (n div 10) @ [char_of (48 + n mod 10)])"

text \<open>\<open>xs[:n]\<close>: a negative \<open>n\<close> counts from the end.\<close>

definition slice_to :: "'a list \<Rightarrow> int \<Rightarrow> 'a list" where
  "slice_to xs n = (if 0 \<le> n then take (nat n) xs else take (nat (int (length xs) + n)) xs)"

text \<open>\<open>if max_articles\<close>: neither \<open>None\<close> nor zero.\<close>

definition truncate_articles :: "article list \<Rightarrow> int option \<Rightarrow> article list" where
  "truncate_articles articles max_articles =
     (case max_articles of
        None \<Rightarrow> articles
      | Some n \<Rightarrow> if n \<noteq> 0 then slice_to articles n else articles)"

definition title_page :: "string \<Rightarrow> string \<Rightarrow> nat \<Rightarrow> flowable list" where
  "title_page feed_url time n =
     [Flow (Paragraph ''RSS Articles'' title_style),
      Flow (Spacer 1 20),
      Flow (Paragraph (''Feed: '' @ feed_url) meta_style),
      Flow (Paragraph (''Generated: '' @ time) meta_style),
      Flow (Paragraph (''Articles: '' @ string_of_nat n) meta_style),
      PageBreak]"

text \<open>The title and the metadata of an article, up to the spacer before its content.\<close>

definition article_header :: "article \<Rightarrow> flowable list" where
  "article_header a =
     [Flow (Paragraph (title a) subtitle_style), Flow (Spacer 1 8)]
     @ (if author a \<noteq> [] then [Flow (Paragraph (''By: '' @ author a) meta_style)] else [])
     @ (if published a \<noteq> [] then [Flow (Paragraph (''Published: '' @ published a) meta_style)] else [])
     @ [Flow (Paragraph (''URL: '' @ link a) meta_style), Flow (Spacer 1 12)]"

text \<open>
  What one round of the loop appends before the page break, and the images stored after
  it: the header, then the formatted content or, when \<open>content\<close> is \<open>None\<close> or empty, the
  placeholder paragraph.
\<close>

definition article_section ::
  "('soup, 'elem) world \<Rightarrow> (string \<times> string) list \<Rightarrow> article
     \<Rightarrow> flowable list \<times> (string \<times> string) list" where
  "article_section w current_article_images a =
     (case extract_article_content (library w) current_article_images (link a) of
        (extracted, images) \<Rightarrow>
          (article_header a
           @ (if \<not> falsy extracted
              then map Flow (add_formatted_content_to_story w images (the extracted))
              else [Flow (Paragraph ''Content could not be extracted.'' content_style)]),
           images))"

text \<open>
  The loop \<open>for i, article in enumerate(articles, 1)\<close>, with \<open>n = len(articles)\<close>, on the
  story and the stored images.
\<close>

fun process_articles ::
  "('soup, 'elem) world \<Rightarrow> nat \<Rightarrow> nat \<Rightarrow> article list
     \<Rightarrow> flowable list \<times> (string \<times> string) list \<Rightarrow> flowable list \<times> (string \<times> string) list" where
  "process_articles w n i [] (story, images) = (story, images)"
| "process_articles w n i (a # articles) (story, images) =
     (case article_section w images a of
        (blocks, images') \<Rightarrow>
          process_articles w n (Suc i) articles
            (story @ blocks @ (if i < n then [PageBreak] else []), images'))"

text \<open>
  \<open>create_pdf\<close>: the story handed to \<open>doc.build\<close>, or \<open>None\<close> when the feed gives no
  article and the function returns before building anything. \<open>current_article_images\<close> is
  the attribute as the call finds it.
\<close>

definition create_pdf ::
  "('soup, 'elem) world \<Rightarrow> (string \<times> string) list \<Rightarrow> string \<Rightarrow> int option \<Rightarrow> flowable list option" where
  "create_pdf w current_article_images feed_url max_articles =
     (let articles = fetch_rss_feed w feed_url in
      if articles = [] then None
      else
        let articles = truncate_articles articles max_articles in
        Some (fst (process_articles w (length articles) 1 articles
                     (title_page feed_url (now w) (length articles), current_article_images))))"


section \<open>Concrete inputs\<close>

text \<open>The fenced code block of the specification: the fence line, \<open>print(1)\<close>, the fence.\<close>

definition fence_example :: string where
  "fence_example =
     [backtick, backtick, backtick] @ ''python'' @ [newline] @ ''print(1)'' @ [newline]
     @ [backtick, backtick, backtick]"

text \<open>
  A page whose \<open>article\<close> tag holds a short note and whose body holds more than 500
  characters; no other selector of the list finds a tag.
\<close>

definition short_article_page :: "(unit, string) library" where
  "short_article_page =
     \<lparr>fetch_page = (\<lambda>url. Some ()),
      select_one = (\<lambda>page selector. if selector = ''article'' then Some ''article'' else None),
      find_body = (\<lambda>page. Some ''body''),
      strip_boilerplate = (\<lambda>page elem. page),
      strip_body = (\<lambda>page elem. page),
      get_text = (\<lambda>page elem. if elem = ''article'' then ''A short note.'' else replicate 600 (CHR ''x'')),
      find_images = (\<lambda>page elem. []),
      to_html = (\<lambda>page elem. elem),
      html_to_markdown = (\<lambda>html. html)\<rparr>"

text \<open>
  A feed of two articles. The page of the first cannot be fetched; the page of the second
  has a body with one image.
\<close>

definition two_articles :: "article list" where
  "two_articles =
     [\<lparr>title = ''First'', link = ''http://blog/one'', published = [], author = ''Ann''\<rparr>,
      \<lparr>title = ''Second'', link = ''http://blog/two'', published = ''Monday'', author = []\<rparr>]"

definition two_article_world :: "(unit, string) world" where
  "two_article_world =
     \<lparr>library =
        \<lparr>fetch_page = (\<lambda>url. if url = ''http://blog/two'' then Some () else None),
         select_one = (\<lambda>page selector. None),
         find_body = (\<lambda>page. Some ''body''),
         strip_boilerplate = (\<lambda>page elem. page),
         strip_body = (\<lambda>page elem. page),
         get_text = (\<lambda>page elem. ''Some text.''),
         find_images = (\<lambda>page elem. [(''http://img/a.png'', ''a chart'')]),
         to_html = (\<lambda>page elem. ''Some text.''),
         html_to_markdown = (\<lambda>html. html)\<rparr>,
      fetch_rss_feed = (\<lambda>url. two_articles),
      now = ''2024-01-01 00:00'',
      add_formatted_content_to_story =
        (\<lambda>images text. [Paragraph text content_style, Spacer 1 8] @ map (\<lambda>img. Image 400 300) images)\<rparr>"

section \<open>Notions used to state the properties\<close>

text \<open>
  The base key of an image, and the test an image passes before its key is looked up:
  an absolute \<open>src\<close> that the classifier takes for a content image.
\<close>

definition key_of :: "string \<times> string \<Rightarrow> string" where
  "key_of img = extract_base_image_url (fst img)"

definition acceptable :: "string \<times> string \<Rightarrow> bool" where
  "acceptable img = (fst img \<noteq> [] \<and> prefix ''http'' (fst img) \<and> is_content_image (fst img) (snd img))"

text \<open>
  The sections of the articles of a run, each as \<open>article_section\<close> gives it from the images
  the article before it left, and the sections put together with a page break between two
  of them.
\<close>

fun sections ::
  "('soup, 'elem) world \<Rightarrow> (string \<times> string) list \<Rightarrow> article list \<Rightarrow> flowable list list" where
  "sections w images [] = []"
| "sections w images (a # articles) =
     fst (article_section w images a) # sections w (snd (article_section w images a)) articles"

fun join_sections :: "flowable list list \<Rightarrow> flowable list" where
  "join_sections [] = []"
| "join_sections [s] = s"
| "join_sections (s # ss) = s @ [PageBreak] @ join_sections ss"






text \<open>
  A string is single-spaced when each of its whitespace characters is a space that no
  whitespace follows.
\<close>

fun single_spaced :: "string \<Rightarrow> bool" where
  "single_spaced [] = True"
| "single_spaced [c] = (is_space c \<longrightarrow> c = CHR '' '')"
| "single_spaced (c # d # cs) = ((is_space c \<longrightarrow> c = CHR '' '' \<and> \<not> is_space d) \<and> single_spaced (d # cs))"


section \<open>Properties of the scan\<close>

lemma str_in_iff: "str_in p s \<longleftrightarrow> (\<exists>a b. s = a @ p @ b)"
proof (induction s)
  case Nil
  then show ?case by auto
next
  case (Cons c cs)
  show ?case
  proof
    assume "str_in p (c # cs)"
    then consider "prefix p (c # cs)" | "str_in p cs" by auto
    then show "\<exists>a b. c # cs = a @ p @ b"
    proof cases
      case 1
      then obtain b where "c # cs = p @ b" by (auto simp: prefix_def)
      then have "c # cs = [] @ p @ b" by simp
      then show ?thesis by blast
    next
      case 2
      then obtain a b where "cs = a @ p @ b" using Cons by blast
      then have "c # cs = (c # a) @ p @ b" by simp
      then show ?thesis by blast
    qed
  next
    assume "\<exists>a b. c # cs = a @ p @ b"
    then obtain a b where ab: "c # cs = a @ p @ b" by blast
    show "str_in p (c # cs)"
    proof (cases a)
      case Nil
      then have "prefix p (c # cs)" using ab by (simp add: prefix_def)
      then show ?thesis by simp
    next
      case (Cons d a')
      then have "cs = a' @ p @ b" using ab by simp
      then have "str_in p cs" using Cons.IH by blast
      then show ?thesis by simp
    qed
  qed
qed

lemma set_re_sub:
  assumes "\<And>s' out r. m s' = Some (out, r) \<Longrightarrow> set out \<subseteq> A \<and> set r \<subseteq> set s'"
  shows "set (re_sub m s) \<subseteq> set s \<union> A"
proof (induction s rule: length_induct)
  case (1 s)
  show ?case
  proof (cases s)
    case Nil
    then show ?thesis by simp
  next
    case (Cons c cs)
    have ih: "set (re_sub m cs) \<subseteq> set cs \<union> A" using 1 Cons by simp
    show ?thesis
    proof (cases "m (c # cs)")
      case None
      with Cons ih show ?thesis by auto
    next
      case (Some p)
      obtain out rest where p: "p = (out, rest)" by (cases p)
      have o: "set out \<subseteq> A" and r: "set rest \<subseteq> set s" using assms Some p Cons by blast+
      show ?thesis
      proof (cases "length rest \<le> length cs")
        case True
        then have "set (re_sub m rest) \<subseteq> set rest \<union> A" using 1 Cons by simp
        moreover have "re_sub m s = out @ re_sub m rest" using Cons Some p True by simp
        ultimately show ?thesis using o r by auto
      next
        case False
        then have "re_sub m s = c # re_sub m cs" using Cons Some p by simp
        then show ?thesis using ih Cons by auto
      qed
    qed
  qed
qed

lemma set_lit: "lit l s = Some r \<Longrightarrow> set r \<subseteq> set s"
  by (auto simp: lit_def split: if_splits dest: in_set_dropD)
lemma set_one: "one P s = Some r \<Longrightarrow> set r \<subseteq> set s"
  by (auto simp: one_def split: list.splits if_splits)
lemma set_plus: "plus P s = Some r \<Longrightarrow> set r \<subseteq> set s"
  by (auto simp: plus_def split: list.splits if_splits dest: set_dropWhileD)
lemma set_star: "star P s = Some r \<Longrightarrow> set r \<subseteq> set s"
  by (auto simp: star_def dest: set_dropWhileD)

lemma m_isolated_excl_sets: "m_isolated_excl s = Some (out, r) \<Longrightarrow> set out \<subseteq> {CHR '' ''} \<and> set r \<subseteq> set s"
  by (auto simp: m_isolated_excl_def split: bind_splits dest!: set_plus)
lemma m_artifact_sets: "m_artifact s = Some (out, r) \<Longrightarrow> set out \<subseteq> {CHR '' ''} \<and> set r \<subseteq> set s"
  by (auto simp: m_artifact_def split: bind_splits dest!: set_plus)
lemma m_multi_excl_sets: "m_multi_excl s = Some (out, r) \<Longrightarrow> set out \<subseteq> {CHR ''!''} \<and> set r \<subseteq> set s"
  by (auto simp: m_multi_excl_def split: bind_splits dest!: set_lit set_star)
lemma m_spaces_sets: "m_spaces s = Some (out, r) \<Longrightarrow> set out \<subseteq> {CHR '' ''} \<and> set r \<subseteq> set s"
  by (auto simp: m_spaces_def split: bind_splits dest!: set_plus)

lemma set_strip: "set (strip s) \<subseteq> set s"
  unfolding strip_def by (auto dest!: set_dropWhileD)

lemma strip_ends: "strip s = [] \<or> (\<not> is_space (hd (strip s)) \<and> \<not> is_space (last (strip s)))"
proof (cases "strip s = []")
  case True
  then show ?thesis by simp
next
  case False
  define t where "t = dropWhile is_space s"
  define u where "u = dropWhile is_space (rev t)"
  have su: "strip s = rev u" by (simp add: strip_def t_def u_def)
  have une: "u \<noteq> []" using False su by simp
  have l: "\<not> is_space (hd u)" using une unfolding u_def by (rule hd_dropWhile)
  have "last (strip s) = hd u" using su une by (simp add: last_rev)
  moreover have "hd (strip s) = last u" using su une by (simp add: hd_rev)
  moreover have "last u = last (rev t)" using une unfolding u_def
    by (metis append_Nil2 last_appendR takeWhile_dropWhile_id)
  moreover have "t \<noteq> []" using une u_def by auto
  then have "last (rev t) = hd t" "\<not> is_space (hd t)" unfolding t_def
    by (simp_all add: last_rev hd_dropWhile)
  ultimately show ?thesis using l by simp
qed

section \<open>The output of \<open>clean_text\<close>\<close>

lemma replace_bslash: "replace [bslash] [] s = filter (\<lambda>c. c \<noteq> bslash) s"
  by (induction s) (auto simp: replace_def m_lit_def)

lemma re_sub_spaces: "c \<in> set (re_sub m_spaces s) \<Longrightarrow> is_space c \<Longrightarrow> c = CHR '' ''"
proof (induction s rule: length_induct)
  case (1 s)
  show ?case
  proof (cases s)
    case Nil
    with 1 show ?thesis by simp
  next
    case (Cons d ds)
    show ?thesis
    proof (cases "is_space d")
      case True
      then have "re_sub m_spaces s = CHR '' '' # re_sub m_spaces (dropWhile is_space ds)"
        using Cons by (simp add: m_spaces_def plus_def length_dropWhile_le)
      moreover have "length (dropWhile is_space ds) < length s"
        using Cons by (simp add: length_dropWhile_le le_imp_less_Suc)
      ultimately show ?thesis using 1 by auto
    next
      case False
      then have "re_sub m_spaces s = d # re_sub m_spaces ds"
        using Cons by (simp add: m_spaces_def plus_def)
      then show ?thesis using 1 Cons False by auto
    qed
  qed
qed

lemma remove_escapes_no_bslash: "bslash \<notin> set (remove_escapes text)"
  by (simp add: remove_escapes_def Let_def replace_bslash)

lemma set_remove_artifacts: "set (remove_artifacts text) \<subseteq> set text \<union> {CHR '' '', CHR ''!''}"
proof -
  have a: "set (filter is_printable text) \<subseteq> set text" by auto
  have b: "set (re_sub m_isolated_excl x) \<subseteq> set x \<union> {CHR '' ''}" for x
    by (rule set_re_sub) (rule m_isolated_excl_sets)
  have c: "set (re_sub m_multi_excl x) \<subseteq> set x \<union> {CHR ''!''}" for x
    by (rule set_re_sub) (rule m_multi_excl_sets)
  have d: "set (re_sub m_artifact x) \<subseteq> set x \<union> {CHR '' ''}" for x
    by (rule set_re_sub) (rule m_artifact_sets)
  show ?thesis unfolding remove_artifacts_def Let_def
    using a b [of "filter is_printable text"]
      c [of "re_sub m_isolated_excl (filter is_printable text)"]
      d [of "re_sub m_multi_excl (re_sub m_isolated_excl (filter is_printable text))"]
    by blast
qed

lemma set_normalize_whitespace: "set (normalize_whitespace text) \<subseteq> set text \<union> {CHR '' ''}"
proof -
  have "set (re_sub m_spaces text) \<subseteq> set text \<union> {CHR '' ''}"
    by (rule set_re_sub) (rule m_spaces_sets)
  then show ?thesis unfolding normalize_whitespace_def using set_strip by blast
qed

lemma normalize_whitespace_spaces:
  "c \<in> set (normalize_whitespace text) \<Longrightarrow> is_space c \<Longrightarrow> c = CHR '' ''"
  unfolding normalize_whitespace_def using set_strip re_sub_spaces by blast

text \<open>
  C9: whatever the input, the string \<open>clean_text\<close> returns holds no backslash, no
  newline and no tab, and it neither starts nor ends with a whitespace character.
\<close>

theorem clean_text_output:
  "bslash \<notin> set (clean_text text) \<and> newline \<notin> set (clean_text text) \<and> tab \<notin> set (clean_text text)
   \<and> (clean_text text = [] \<or> (\<not> is_space (hd (clean_text text)) \<and> \<not> is_space (last (clean_text text))))"
proof (cases "text = []")
  case True
  then show ?thesis by (simp add: clean_text_def)
next
  case False
  define y where "y = remove_artifacts (remove_escapes (replace_entities text))"
  have ct: "clean_text text = normalize_whitespace y" using False by (simp add: clean_text_def y_def)
  have "bslash \<notin> set y"
    unfolding y_def using set_remove_artifacts remove_escapes_no_bslash by fastforce
  then have 1: "bslash \<notin> set (clean_text text)"
    unfolding ct using set_normalize_whitespace by fastforce
  have 2: "newline \<notin> set (clean_text text)"
    unfolding ct using normalize_whitespace_spaces [of newline y] by (auto simp: is_space_def code_def)
  have 3: "tab \<notin> set (clean_text text)"
    unfolding ct using normalize_whitespace_spaces [of tab y] by (auto simp: is_space_def code_def)
  have 4: "clean_text text = [] \<or> (\<not> is_space (hd (clean_text text)) \<and> \<not> is_space (last (clean_text text)))"
    unfolding ct normalize_whitespace_def by (rule strip_ends)
  from 1 2 3 4 show ?thesis by blast
qed

theorem clean_text_output_witness:
  "clean_text ([CHR ''a'', bslash, tab, newline] @ '' b '') = ''a b''
   \<and> bslash \<notin> set ''a b'' \<and> \<not> is_space (hd ''a b'') \<and> \<not> is_space (last ''a b'')"
proof -
  have e: "clean_text ([CHR ''a'', bslash, tab, newline] @ '' b '') = ''a b''" by code_simp
  show ?thesis using clean_text_output [of "[CHR ''a'', bslash, tab, newline] @ '' b ''"]
    unfolding e by simp
qed

section \<open>The markdown cleaner on a fenced code block\<close>

text \<open>
  C1: on the fenced code block of the specification \<open>clean_markdown_content\<close> does not
  return the line \<open>CODE BLOCK:\<close> followed by \<open>print(1)\<close>. The substitution for inline code
  runs before the one for fences and takes the backticks of each fence line two by two,
  so that no fence is left for the later substitution: the result is the input with one
  backtick left at each end.
\<close>

theorem clean_markdown_fence:
  "clean_markdown_content fence_example
     = [backtick] @ ''python'' @ [newline] @ ''print(1)'' @ [newline, backtick]"
  by code_simp

text \<open>The substitution for fences alone does rewrite the example as the claim says.\<close>

lemma code_fence_alone:
  "strip (re_sub m_code_fence fence_example) = ''CODE BLOCK:'' @ [newline] @ ''print(1)''"
  by code_simp

section \<open>The selector loop\<close>

text \<open>
  C2: on a page whose \<open>article\<close> tag holds thirteen characters and whose body holds six
  hundred, no selector reaches the threshold, and yet the body is not used: the loop
  leaves the short text in \<open>content\<close>, which is not empty, so the fallback on the body is
  skipped. \<open>used_selector\<close> stays \<open>None\<close>, and \<open>content_elem\<close> is what the last selector of
  the list found, here nothing.
\<close>

theorem short_article_no_fallback:
  "content (find_content short_article_page ()) = Some ''A short note.''
   \<and> used_selector (find_content short_article_page ()) = None
   \<and> content_elem (find_content short_article_page ()) = None"
  by code_simp

text \<open>The first selector whose text is longer than 500 characters ends the loop.\<close>

lemma try_selectors_first_long:
  assumes "select_one lib (soup st) selector = Some elem"
    and "length (get_text lib (strip_boilerplate lib (soup st) elem) elem) > 500"
  shows "try_selectors lib (selector # selectors) st =
           st\<lparr>soup := strip_boilerplate lib (soup st) elem,
              content := Some (get_text lib (strip_boilerplate lib (soup st) elem) elem),
              content_elem := Some elem, used_selector := Some selector\<rparr>"
  using assms by (simp add: Let_def)

section \<open>Entities and idempotence\<close>

text \<open>
  C3, as stated, fails: \<open>clean_text\<close> is not idempotent. The entity \<open>&amp;\<close> is replaced
  after \<open>&quot;\<close>, so \<open>&amp;quot;\<close> becomes \<open>&quot;\<close>, which a second pass turns into a quotation
  mark.
\<close>

theorem clean_text_not_idempotent:
  "clean_text (clean_text ''&amp;quot;'') \<noteq> clean_text ''&amp;quot;''"
  by code_simp

text \<open>
  A pattern that matches nowhere leaves the text as it is, and one whose matches are
  longer than what replaces them shortens the text wherever it matches.
\<close>

lemma re_search_None_iff: "re_search m s = None \<longleftrightarrow> (\<forall>t. suffix t s \<longrightarrow> m t = None)"
proof (induction s)
  case Nil
  then show ?case by simp
next
  case (Cons c cs)
  show ?case
  proof (cases "m (c # cs)")
    case None
    then show ?thesis using Cons by (auto simp: suffix_Cons)
  next
    case (Some g)
    then show ?thesis by (auto intro: exI [of _ "c # cs"])
  qed
qed

lemma re_sub_id: "re_search m s = None \<Longrightarrow> re_sub m s = s"
proof (induction s)
  case Nil
  then show ?case by simp
next
  case (Cons c cs)
  then have "m (c # cs) = None" "re_search m cs = None" by (auto split: option.splits)
  then show ?case using Cons.IH by simp
qed

lemma str_in_suffix_prefix: "suffix t s \<Longrightarrow> prefix p t \<Longrightarrow> str_in p s"
  unfolding str_in_iff by (auto simp: suffix_def prefix_def)

lemma str_in_obtain: "str_in p s \<Longrightarrow> \<exists>t. suffix t s \<and> prefix p t"
proof -
  assume "str_in p s"
  then obtain a b where "s = a @ p @ b" unfolding str_in_iff by blast
  then have "suffix (p @ b) s" "prefix p (p @ b)" by (auto simp: suffix_def)
  then show ?thesis by blast
qed

lemma re_search_m_lit: "old \<noteq> [] \<Longrightarrow> re_search (m_lit old new) s = None \<longleftrightarrow> \<not> str_in old s"
proof -
  assume n: "old \<noteq> []"
  have "(\<forall>t. suffix t s \<longrightarrow> m_lit old new t = None) \<longleftrightarrow> (\<forall>t. suffix t s \<longrightarrow> \<not> prefix old t)"
    using n by (auto simp: m_lit_def)
  also have "\<dots> \<longleftrightarrow> \<not> str_in old s"
    using str_in_suffix_prefix str_in_obtain by blast
  finally show ?thesis unfolding re_search_None_iff .
qed

lemma replace_id: "old \<noteq> [] \<Longrightarrow> \<not> str_in old s \<Longrightarrow> replace old new s = s"
  unfolding replace_def by (rule re_sub_id) (simp add: re_search_m_lit)

lemma length_re_sub_le:
  assumes "\<And>s out r. m s = Some (out, r) \<Longrightarrow> length out + length r \<le> length s"
  shows "length (re_sub m s) \<le> length s"
proof (induction s rule: length_induct)
  case (1 s)
  show ?case
  proof (cases s)
    case Nil
    then show ?thesis by simp
  next
    case (Cons c cs)
    have ih: "length (re_sub m cs) \<le> length cs" using 1 Cons by simp
    show ?thesis
    proof (cases "m (c # cs)")
      case None
      then show ?thesis using ih Cons by simp
    next
      case (Some p)
      obtain out r where p: "p = (out, r)" by (cases p)
      have le: "length out + length r \<le> length s" using assms Some p Cons by blast
      show ?thesis
      proof (cases "length r \<le> length cs")
        case True
        then have "length (re_sub m r) \<le> length r" using 1 Cons by simp
        then show ?thesis using Some p True Cons le by simp
      next
        case False
        then show ?thesis using Some p ih Cons by simp
      qed
    qed
  qed
qed

lemma length_re_sub_less:
  assumes sh: "\<And>s out r. m s = Some (out, r) \<Longrightarrow> length out + length r < length s"
    and occ: "re_search m s \<noteq> None"
  shows "length (re_sub m s) < length s"
  using occ
proof (induction s)
  case Nil
  then obtain out r where "m [] = Some (out, r)" by (cases "m []") auto
  from sh [OF this] show ?case by simp
next
  case (Cons c cs)
  have le: "length (re_sub m t) \<le> length t" for t
    by (rule length_re_sub_le) (use sh in \<open>fastforce dest: less_imp_le\<close>)
  show ?case
  proof (cases "m (c # cs)")
    case None
    then have "re_search m cs \<noteq> None" using Cons.prems by simp
    then have "length (re_sub m cs) < length cs" by (rule Cons.IH)
    then show ?thesis using None by simp
  next
    case (Some p)
    obtain out r where p: "p = (out, r)" by (cases p)
    have l: "length out + length r < length (c # cs)" using sh Some p by blast
    then have g: "length r \<le> length cs" by simp
    have "length (re_sub m r) \<le> length r" by (rule le)
    then show ?thesis using Some p g l by simp
  qed
qed

text \<open>What the text that \<open>clean_text\<close> returns looks like.\<close>

lemma re_sub_None: "(\<And>t. set t \<subseteq> set s \<Longrightarrow> m t = None) \<Longrightarrow> re_sub m s = s"
proof (induction s)
  case Nil
  then show ?case by simp
next
  case (Cons c cs)
  have "m (c # cs) = None" using Cons.prems by simp
  moreover have "re_sub m cs = cs" using Cons by (metis set_subset_Cons subset_trans)
  ultimately show ?case by simp
qed

lemma m_lit_None: "old \<noteq> [] \<Longrightarrow> hd old \<notin> set s \<Longrightarrow> m_lit old new s = None"
  by (cases old; cases s) (auto simp: m_lit_def)

lemma replace_absent: "old \<noteq> [] \<Longrightarrow> hd old \<notin> set s \<Longrightarrow> replace old new s = s"
  unfolding replace_def by (rule re_sub_None) (auto intro: m_lit_None)

lemma remove_escapes_absent: "bslash \<notin> set s \<Longrightarrow> remove_escapes s = s"
  by (simp add: remove_escapes_def Let_def replace_absent)

lemma single_spaced_Cons: "single_spaced (c # cs) \<Longrightarrow> single_spaced cs"
  by (cases cs) auto

lemma re_sub_spaces_hd: "\<not> is_space c \<Longrightarrow> re_sub m_spaces (c # cs) = c # re_sub m_spaces cs"
  by (simp add: m_spaces_def plus_def)

lemma re_sub_spaces_single: "single_spaced s \<Longrightarrow> re_sub m_spaces s = s"
proof (induction s)
  case Nil
  then show ?case by simp
next
  case (Cons c cs)
  have ih: "re_sub m_spaces cs = cs" using Cons single_spaced_Cons by blast
  show ?case
  proof (cases "is_space c")
    case True
    then have c: "c = CHR '' ''" and d: "dropWhile is_space cs = cs"
      using Cons.prems by (cases cs; auto)+
    have "m_spaces (c # cs) = Some ('' '', cs)" using True d by (simp add: m_spaces_def plus_def)
    then have "re_sub m_spaces (c # cs) = '' '' @ re_sub m_spaces cs" by simp
    then show ?thesis using c ih by simp
  next
    case False
    show ?thesis unfolding re_sub_spaces_hd [OF False] ih ..
  qed
qed

lemma single_spaced_nonspace: "\<not> is_space c \<Longrightarrow> single_spaced (c # cs) = single_spaced cs"
  by (cases cs) auto

lemma single_spaced_re_sub: "single_spaced (re_sub m_spaces s)"
proof (induction s rule: length_induct)
  case (1 s)
  show ?case
  proof (cases s)
    case Nil
    then show ?thesis by simp
  next
    case (Cons c cs)
    show ?thesis
    proof (cases "is_space c")
      case False
      have "single_spaced (re_sub m_spaces cs)" using 1 Cons by simp
      then show ?thesis unfolding Cons re_sub_spaces_hd [OF False] using False
        by (simp add: single_spaced_nonspace)
    next
      case True
      define r where "r = dropWhile is_space cs"
      have e: "re_sub m_spaces s = CHR '' '' # re_sub m_spaces r"
        using True Cons by (simp add: m_spaces_def plus_def r_def length_dropWhile_le)
      have "length r < length s" using Cons by (simp add: r_def length_dropWhile_le le_imp_less_Suc)
      then have ih: "single_spaced (re_sub m_spaces r)" using 1 by simp
      show ?thesis
      proof (cases r)
        case Nil
        then show ?thesis using e by simp
      next
        case (Cons d ds)
        then have nd: "\<not> is_space d" using hd_dropWhile [of is_space cs] r_def by auto
        have "re_sub m_spaces r = d # re_sub m_spaces ds"
          unfolding Cons by (rule re_sub_spaces_hd [OF nd])
        then show ?thesis using e ih nd by simp
      qed
    qed
  qed
qed

lemma single_spaced_prefix: "single_spaced t \<Longrightarrow> prefix u t \<Longrightarrow> single_spaced u"
proof (induction t arbitrary: u rule: single_spaced.induct)
  case 1
  then show ?case by simp
next
  case (2 c)
  then show ?case by (cases u) (auto simp: prefix_Cons)
next
  case (3 c d cs)
  show ?case
  proof (cases u)
    case Nil
    then show ?thesis by simp
  next
    case (Cons x xs)
    then have x: "x = c" "prefix xs (d # cs)" using 3(3) by simp_all
    then have "single_spaced xs" using 3 by simp
    then show ?thesis using x Cons 3(2) by (cases xs) auto
  qed
qed

lemma single_spaced_dropWhile: "single_spaced t \<Longrightarrow> single_spaced (dropWhile P t)"
  by (induction t) (auto dest: single_spaced_Cons)

lemma strip_prefix: "prefix (strip s) (dropWhile is_space s)"
proof -
  define t where "t = dropWhile is_space s"
  have "t = rev (takeWhile is_space (rev t) @ dropWhile is_space (rev t))" by simp
  then have "t = strip s @ rev (takeWhile is_space (rev t))"
    unfolding strip_def t_def [symmetric] by (simp only: rev_append)
  then show ?thesis unfolding t_def by (metis prefixI)
qed

lemma single_spaced_strip: "single_spaced s \<Longrightarrow> single_spaced (strip s)"
  using single_spaced_prefix [OF single_spaced_dropWhile strip_prefix] by blast

lemma strip_id: "s = [] \<or> (\<not> is_space (hd s) \<and> \<not> is_space (last s)) \<Longrightarrow> strip s = s"
proof (cases s)
  case Nil
  then show ?thesis by (simp add: strip_def)
next
  case (Cons c cs)
  assume "s = [] \<or> (\<not> is_space (hd s) \<and> \<not> is_space (last s))"
  then have h: "\<not> is_space (hd s)" "\<not> is_space (last s)" using Cons by auto
  then have 1: "dropWhile is_space s = s" using Cons by simp
  have "rev s \<noteq> []" "hd (rev s) = last s" using Cons by (simp_all add: hd_rev)
  then obtain y ys where r: "rev s = y # ys" "y = last s" by (cases "rev s") auto
  have 2: "dropWhile is_space (rev s) = rev s" unfolding r(1) using h(2) r(2) by simp
  show ?thesis unfolding strip_def 1 2 by simp
qed

lemma clean_text_shape:
  "single_spaced (clean_text x)
   \<and> (clean_text x = [] \<or> (\<not> is_space (hd (clean_text x)) \<and> \<not> is_space (last (clean_text x))))"
proof (cases "x = []")
  case True
  then show ?thesis by (simp add: clean_text_def)
next
  case False
  then show ?thesis
    unfolding clean_text_def normalize_whitespace_def
    using single_spaced_strip [OF single_spaced_re_sub] strip_ends by simp
qed

lemma plus_suffix: "plus P s = Some r \<Longrightarrow> suffix r s \<and> length r < length s"
  by (cases s) (auto simp: plus_def suffix_dropWhile suffix_ConsI length_dropWhile_le le_imp_less_Suc
      split: if_splits)

lemma lit_suffix: "lit l s = Some r \<Longrightarrow> suffix r s \<and> length r + length l = length s"
  by (auto simp: lit_def prefix_def suffix_def split: if_splits)

lemma star_suffix: "star P s = Some r \<Longrightarrow> suffix r s"
  by (auto simp: star_def suffix_dropWhile)

lemma m_isolated_excl_shape:
  assumes "m_isolated_excl s = Some (out, r)"
  shows "out = '' ''" "suffix r s" "length out + length r < length s"
proof -
  from assms obtain s1 s2 where
    a: "plus is_space s = Some s1" "plus is_excl s1 = Some s2" "plus is_space s2 = Some r" and o: "out = '' ''"
    by (auto simp: m_isolated_excl_def split: bind_splits)
  show "out = '' ''" by (rule o)
  from a show "suffix r s" using plus_suffix suffix_order.trans by blast
  from a have "length s1 < length s" "length s2 < length s1" "length r < length s2"
    using plus_suffix by blast+
  then show "length out + length r < length s" using o by simp
qed

lemma m_artifact_shape:
  assumes "m_artifact s = Some (out, r)"
  shows "out = '' ''" "suffix r s" "length out + length r < length s"
proof -
  from assms obtain s1 s2 where
    a: "plus is_space s = Some s1" "plus is_artifact s1 = Some s2" "plus is_space s2 = Some r" and o: "out = '' ''"
    by (auto simp: m_artifact_def split: bind_splits)
  show "out = '' ''" by (rule o)
  from a show "suffix r s" using plus_suffix suffix_order.trans by blast
  from a have "length s1 < length s" "length s2 < length s1" "length r < length s2"
    using plus_suffix by blast+
  then show "length out + length r < length s" using o by simp
qed

lemma m_spaces_shape:
  assumes "m_spaces s = Some (out, r)"
  shows "out = '' ''" "suffix r s" "length out + length r \<le> length s"
proof -
  from assms have a: "plus is_space s = Some r" and o: "out = '' ''"
    by (auto simp: m_spaces_def split: bind_splits)
  show "out = '' ''" by (rule o)
  from a show "suffix r s" using plus_suffix by blast
  from a have "length r < length s" using plus_suffix by blast
  then show "length out + length r \<le> length s" using o by simp
qed

lemma m_multi_excl_shape:
  assumes "m_multi_excl s = Some (out, r)"
  shows "out = ''!''" "suffix r s" "length out + length r < length s" "r = [] \<or> hd r \<noteq> CHR ''!''"
proof -
  from assms obtain s1 where
    a: "lit ''!!'' s = Some s1" "r = dropWhile is_excl s1" and o: "out = ''!''"
    by (auto simp: m_multi_excl_def star_def split: bind_splits)
  show "out = ''!''" by (rule o)
  have s1: "suffix s1 s" "length s1 + 2 = length s" using lit_suffix [OF a(1)] by simp_all
  show "suffix r s" unfolding a(2) using s1(1) suffix_dropWhile suffix_order.trans by blast
  have "length r \<le> length s1" unfolding a(2) by (rule length_dropWhile_le)
  then show "length out + length r < length s" using s1(2) o by simp
  show "r = [] \<or> hd r \<noteq> CHR ''!''"
    unfolding a(2) using hd_dropWhile [of is_excl s1] by (auto simp: is_excl_def)
qed

lemma double_excl_Cons:
  "str_in ''!!'' (c # cs) \<longleftrightarrow> (c = CHR ''!'' \<and> cs \<noteq> [] \<and> hd cs = CHR ''!'') \<or> str_in ''!!'' cs"
  by (cases cs) auto

lemma m_multi_excl_None_hd: "s = [] \<or> hd s \<noteq> CHR ''!'' \<Longrightarrow> m_multi_excl s = None"
  by (cases s) (auto simp: m_multi_excl_def lit_def)

lemma m_multi_excl_Some: "m_multi_excl (CHR ''!'' # CHR ''!'' # cs) \<noteq> None"
  by (simp add: m_multi_excl_def lit_def star_def)

lemma no_double_excl_multi: "\<not> str_in ''!!'' (re_sub m_multi_excl s)"
proof (induction s rule: length_induct)
  case (1 s)
  have start: "t \<noteq> [] \<Longrightarrow> hd t \<noteq> CHR ''!'' \<Longrightarrow> re_sub m_multi_excl t \<noteq> [] \<and> hd (re_sub m_multi_excl t) \<noteq> CHR ''!''" for t
    by (cases t) (simp_all add: m_multi_excl_None_hd)
  have nil: "re_sub m_multi_excl [] = []" by simp
  show ?case
  proof (cases s)
    case Nil
    then show ?thesis by simp
  next
    case (Cons c cs)
    have ih: "\<not> str_in ''!!'' (re_sub m_multi_excl cs)" using 1 Cons by simp
    show ?thesis
    proof (cases "m_multi_excl (c # cs)")
      case None
      have e: "re_sub m_multi_excl s = c # re_sub m_multi_excl cs" using None Cons by simp
      show ?thesis
      proof (cases "c = CHR ''!''")
        case False
        then show ?thesis unfolding e double_excl_Cons using ih by simp
      next
        case True
        have "cs = [] \<or> hd cs \<noteq> CHR ''!''"
        proof (rule ccontr)
          assume "\<not> (cs = [] \<or> hd cs \<noteq> CHR ''!'')"
          then obtain ds where "cs = CHR ''!'' # ds" by (cases cs) auto
          then show False using None True m_multi_excl_Some by simp
        qed
        then have "re_sub m_multi_excl cs = [] \<or> hd (re_sub m_multi_excl cs) \<noteq> CHR ''!''"
        proof
          assume "cs = []"
          then show ?thesis using nil by simp
        next
          assume "hd cs \<noteq> CHR ''!''"
          then show ?thesis using start [of cs] nil by (cases "cs = []") auto
        qed
        then show ?thesis unfolding e double_excl_Cons using ih by blast
      qed
    next
      case (Some p)
      obtain out r where p: "p = (out, r)" by (cases p)
      note sh = m_multi_excl_shape [OF Some [unfolded p]]
      have g: "length r \<le> length cs" using sh(3) by simp
      have e: "re_sub m_multi_excl s = CHR ''!'' # re_sub m_multi_excl r"
        using Some p g sh(1) Cons by simp
      have "length r < length s" using g Cons by simp
      then have ihr: "\<not> str_in ''!!'' (re_sub m_multi_excl r)" using 1 by simp
      have "re_sub m_multi_excl r = [] \<or> hd (re_sub m_multi_excl r) \<noteq> CHR ''!''"
        using sh(4)
      proof
        assume "r = []"
        then show ?thesis using nil by simp
      next
        assume "hd r \<noteq> CHR ''!''"
        then show ?thesis using start [of r] nil by (cases "r = []") auto
      qed
      then show ?thesis unfolding e double_excl_Cons using ihr by blast
    qed
  qed
qed

lemma str_in_suffix: "suffix r s \<Longrightarrow> str_in p r \<Longrightarrow> str_in p s"
  unfolding str_in_iff suffix_def by (metis append.assoc)

lemma str_in_prefix: "prefix r s \<Longrightarrow> str_in p r \<Longrightarrow> str_in p s"
  unfolding str_in_iff prefix_def by (metis append.assoc)

lemma str_in_strip: "str_in p (strip s) \<Longrightarrow> str_in p s"
  using str_in_prefix [OF strip_prefix] str_in_suffix [OF suffix_dropWhile] by blast

lemma no_double_excl_spaced:
  assumes sp: "\<And>s out r. m s = Some (out, r) \<Longrightarrow> out = '' '' \<and> suffix r s"
  shows "\<not> str_in ''!!'' s \<Longrightarrow> \<not> str_in ''!!'' (re_sub m s)"
proof (induction s rule: length_induct)
  case (1 s)
  have start: "re_sub m t = [] \<or> hd (re_sub m t) = hd t \<or> hd (re_sub m t) = CHR '' ''" for t
  proof (cases t)
    case Nil
    then show ?thesis by simp
  next
    case (Cons d ds)
    show ?thesis
    proof (cases "m (d # ds)")
      case None
      then show ?thesis using Cons by simp
    next
      case (Some q)
      obtain out r where "q = (out, r)" by (cases q)
      then show ?thesis using Some sp [of "d # ds" out r] Cons by auto
    qed
  qed
  show ?case
  proof (cases s)
    case Nil
    then show ?thesis by simp
  next
    case (Cons c cs)
    note n = 1(2) [unfolded Cons double_excl_Cons]
    have ncs: "\<not> str_in ''!!'' cs" using n by blast
    then have ih: "\<not> str_in ''!!'' (re_sub m cs)" using 1 Cons by simp
    have cpy: "\<not> str_in ''!!'' (c # re_sub m cs)"
    proof (cases "c = CHR ''!''")
      case False
      then show ?thesis unfolding double_excl_Cons using ih by blast
    next
      case True
      then have "cs = [] \<or> hd cs \<noteq> CHR ''!''" using n by blast
      then have "re_sub m cs = [] \<or> hd (re_sub m cs) \<noteq> CHR ''!''"
      proof
        assume "cs = []"
        then show ?thesis by simp
      next
        assume "hd cs \<noteq> CHR ''!''"
        then show ?thesis using start [of cs] by auto
      qed
      then show ?thesis unfolding double_excl_Cons using ih by blast
    qed
    show ?thesis
    proof (cases "m (c # cs)")
      case None
      then show ?thesis using cpy Cons by simp
    next
      case (Some q)
      obtain out r where q: "q = (out, r)" by (cases q)
      have o: "out = '' ''" and su: "suffix r (c # cs)" using sp Some q by blast+
      show ?thesis
      proof (cases "length r \<le> length cs")
        case True
        have "\<not> str_in ''!!'' r" using su 1(2) Cons str_in_suffix by blast
        moreover have "length r < length s" using True Cons by simp
        ultimately have "\<not> str_in ''!!'' (re_sub m r)" using 1 by simp
        then have "\<not> str_in ''!!'' (CHR '' '' # re_sub m r)"
          unfolding double_excl_Cons by simp
        moreover have "re_sub m s = CHR '' '' # re_sub m r" using Some q o True Cons by simp
        ultimately show ?thesis by simp
      next
        case False
        then show ?thesis using Some q cpy Cons by simp
      qed
    qed
  qed
qed

lemma clean_text_no_double_excl: "\<not> str_in ''!!'' (clean_text x)"
proof (cases "x = []")
  case True
  then show ?thesis by (simp add: clean_text_def)
next
  case False
  define t where "t = re_sub m_multi_excl (re_sub m_isolated_excl (filter is_printable (remove_escapes (replace_entities x))))"
  have 1: "\<not> str_in ''!!'' t" unfolding t_def by (rule no_double_excl_multi)
  have 2: "\<not> str_in ''!!'' (re_sub m_artifact t)"
    by (rule no_double_excl_spaced [OF _ 1]) (use m_artifact_shape in blast)
  have 3: "\<not> str_in ''!!'' (re_sub m_spaces (re_sub m_artifact t))"
    by (rule no_double_excl_spaced [OF _ 2]) (use m_spaces_shape in blast)
  have "clean_text x = strip (re_sub m_spaces (re_sub m_artifact t))"
    using False by (simp add: clean_text_def normalize_whitespace_def remove_artifacts_def t_def Let_def)
  then show ?thesis using 3 str_in_strip by metis
qed

lemma clean_text_printable: "c \<in> set (clean_text x) \<Longrightarrow> is_printable c"
proof (cases "x = []")
  case True
  assume "c \<in> set (clean_text x)"
  then show ?thesis using True by (simp add: clean_text_def)
next
  case False
  assume c: "c \<in> set (clean_text x)"
  define t where "t = filter is_printable (remove_escapes (replace_entities x))"
  have p: "is_printable (CHR '' '')" "is_printable (CHR ''!'')"
    by (simp_all add: is_printable_def code_def)
  have 0: "\<forall>c \<in> set t. is_printable c" by (simp add: t_def)
  have 1: "set (re_sub m_isolated_excl t) \<subseteq> set t \<union> {CHR '' ''}"
    by (rule set_re_sub) (rule m_isolated_excl_sets)
  have 2: "set (re_sub m_multi_excl u) \<subseteq> set u \<union> {CHR ''!''}" for u
    by (rule set_re_sub) (rule m_multi_excl_sets)
  have 3: "set (re_sub m_artifact u) \<subseteq> set u \<union> {CHR '' ''}" for u
    by (rule set_re_sub) (rule m_artifact_sets)
  have "remove_artifacts (remove_escapes (replace_entities x))
      = re_sub m_artifact (re_sub m_multi_excl (re_sub m_isolated_excl t))"
    by (simp add: remove_artifacts_def Let_def t_def)
  then have "set (remove_artifacts (remove_escapes (replace_entities x))) \<subseteq> set t \<union> {CHR '' '', CHR ''!''}"
    using 1 2 [of "re_sub m_isolated_excl t"] 3 [of "re_sub m_multi_excl (re_sub m_isolated_excl t)"]
    by auto
  then have "set (clean_text x) \<subseteq> set t \<union> {CHR '' '', CHR ''!''}"
    using False set_normalize_whitespace [of "remove_artifacts (remove_escapes (replace_entities x))"]
    by (auto simp: clean_text_def)
  then show ?thesis using c 0 p by auto
qed

text \<open>
  A second pass: the steps that never change a text \<open>clean_text\<close> returned, the three
  that can, and the lengths, which no step increases.
\<close>

lemma clean_text_bslash_free: "bslash \<notin> set (clean_text x)"
proof (cases "x = []")
  case True
  then show ?thesis by (simp add: clean_text_def)
next
  case False
  have "bslash \<notin> set (remove_artifacts (remove_escapes (replace_entities x)))"
    using set_remove_artifacts remove_escapes_no_bslash by fastforce
  then show ?thesis
    using False set_normalize_whitespace by (fastforce simp: clean_text_def)
qed

lemma entity_shapes:
  "(old, new) \<in> set html_entities \<Longrightarrow> old \<noteq> [] \<and> length new < length old"
  by (auto simp: html_entities_def)

lemma replace_entities_id:
  "\<forall>(entity, character) \<in> set html_entities. \<not> str_in entity s \<Longrightarrow> replace_entities s = s"
  by (simp add: replace_entities_def html_entities_def replace_id)

lemma re_search_multi_excl: "re_search m_multi_excl (clean_text x) = None"
  unfolding re_search_None_iff
proof (intro allI impI)
  fix t assume su: "suffix t (clean_text x)"
  show "m_multi_excl t = None"
  proof (rule ccontr)
    assume "m_multi_excl t \<noteq> None"
    then have "prefix ''!!'' t" by (auto simp: m_multi_excl_def lit_def split: bind_splits if_splits)
    then have "str_in ''!!'' (clean_text x)" using su str_in_suffix_prefix by blast
    then show False using clean_text_no_double_excl by blast
  qed
qed

lemma clean_text_early_steps:
  "remove_escapes (clean_text x) = clean_text x"
  "filter is_printable (clean_text x) = clean_text x"
  "re_sub m_multi_excl (clean_text x) = clean_text x"
  "normalize_whitespace (clean_text x) = clean_text x"
proof -
  show "remove_escapes (clean_text x) = clean_text x"
    by (rule remove_escapes_absent) (rule clean_text_bslash_free)
  show "filter is_printable (clean_text x) = clean_text x"
    using clean_text_printable by (simp add: filter_id_conv)
  show "re_sub m_multi_excl (clean_text x) = clean_text x"
    by (rule re_sub_id) (rule re_search_multi_excl)
  have s: "single_spaced (clean_text x)"
    and e: "clean_text x = [] \<or> (\<not> is_space (hd (clean_text x)) \<and> \<not> is_space (last (clean_text x)))"
    using clean_text_shape [of x] by simp_all
  show "normalize_whitespace (clean_text x) = clean_text x"
    unfolding normalize_whitespace_def re_sub_spaces_single [OF s] using e by (rule strip_id)
qed

lemma second_pass_unchanged:
  assumes "\<forall>(entity, character) \<in> set html_entities. \<not> str_in entity (clean_text x)"
    and "re_search m_isolated_excl (clean_text x) = None"
    and "re_search m_artifact (clean_text x) = None"
  shows "clean_text (clean_text x) = clean_text x"
proof -
  define y where "y = clean_text x"
  have 1: "replace_entities y = y" using assms(1) unfolding y_def by (rule replace_entities_id)
  have 2: "remove_escapes y = y" "filter is_printable y = y" "re_sub m_multi_excl y = y"
    "normalize_whitespace y = y"
    unfolding y_def by (rule clean_text_early_steps)+
  have 3: "re_sub m_isolated_excl y = y" using assms(2) unfolding y_def by (rule re_sub_id)
  have 4: "re_sub m_artifact y = y" using assms(3) unfolding y_def by (rule re_sub_id)
  have "remove_artifacts y = y" unfolding remove_artifacts_def Let_def 2 3 4 ..
  then have "clean_text y = y" using 1 2(1,4) by (simp add: clean_text_def)
  then show ?thesis unfolding y_def .
qed

lemma length_replace_le: "length new \<le> length old \<Longrightarrow> length (replace old new s) \<le> length s"
  unfolding replace_def
  by (rule length_re_sub_le) (auto simp: m_lit_def prefix_def split: if_splits)

lemma length_replace_less:
  assumes "old \<noteq> []" "length new < length old" "str_in old s"
  shows "length (replace old new s) < length s"
  unfolding replace_def
proof (rule length_re_sub_less)
  show "re_search (m_lit old new) s \<noteq> None" using assms(1,3) by (simp add: re_search_m_lit)
  show "\<And>s out r. m_lit old new s = Some (out, r) \<Longrightarrow> length out + length r < length s"
    using assms(1,2) by (auto simp: m_lit_def prefix_def split: if_splits)
qed

lemma length_replace_all:
  assumes "\<forall>(old, new) \<in> set es. old \<noteq> [] \<and> length new < length old"
  shows "length (foldl (\<lambda>text (entity, character). replace entity character text) s es) \<le> length s
         \<and> (length (foldl (\<lambda>text (entity, character). replace entity character text) s es) = length s
              \<longrightarrow> (\<forall>(old, new) \<in> set es. \<not> str_in old s))"
  using assms
proof (induction es arbitrary: s)
  case Nil
  then show ?case by simp
next
  case (Cons e es)
  obtain old new where e: "e = (old, new)" by (cases e)
  have sh: "old \<noteq> []" "length new < length old" using Cons.prems e by auto
  define s' where "s' = replace old new s"
  have le: "length s' \<le> length s" unfolding s'_def using sh(2) by (intro length_replace_le) simp
  have ih: "length (foldl (\<lambda>text (entity, character). replace entity character text) s' es) \<le> length s'"
    "length (foldl (\<lambda>text (entity, character). replace entity character text) s' es) = length s'
       \<Longrightarrow> (\<forall>(old, new) \<in> set es. \<not> str_in old s')"
    using Cons.IH [of s'] Cons.prems by auto
  have f: "foldl (\<lambda>text (entity, character). replace entity character text) s (e # es)
      = foldl (\<lambda>text (entity, character). replace entity character text) s' es"
    by (simp add: e s'_def)
  show ?case
  proof (intro conjI impI)
    show "length (foldl (\<lambda>text (entity, character). replace entity character text) s (e # es)) \<le> length s"
      unfolding f using ih(1) le by simp
  next
    assume eq: "length (foldl (\<lambda>text (entity, character). replace entity character text) s (e # es)) = length s"
    then have a: "length s' = length s"
      and b: "length (foldl (\<lambda>text (entity, character). replace entity character text) s' es) = length s'"
      unfolding f using ih(1) le by simp_all
    have n: "\<not> str_in old s"
    proof
      assume "str_in old s"
      from length_replace_less [OF sh this] a show False by (simp add: s'_def)
    qed
    then have "s' = s" unfolding s'_def using sh(1) by (simp add: replace_id)
    then have "\<forall>(old, new) \<in> set es. \<not> str_in old s" using ih(2) [OF b] by simp
    then show "\<forall>(old, new) \<in> set (e # es). \<not> str_in old s" using n e by simp
  qed
qed

lemma length_replace_entities:
  "length (replace_entities s) \<le> length s"
  "length (replace_entities s) = length s \<Longrightarrow> \<forall>(entity, character) \<in> set html_entities. \<not> str_in entity s"
proof -
  have "\<forall>(old, new) \<in> set html_entities. old \<noteq> [] \<and> length new < length old"
    using entity_shapes by blast
  from length_replace_all [OF this, of s]
  show "length (replace_entities s) \<le> length s"
    and "length (replace_entities s) = length s \<Longrightarrow> \<forall>(entity, character) \<in> set html_entities. \<not> str_in entity s"
    unfolding replace_entities_def by blast+
qed

lemma length_strip: "length (strip s) \<le> length s"
proof -
  have "length (strip s) \<le> length (dropWhile is_space s)"
    using strip_prefix by (rule prefix_length_le)
  then show ?thesis using length_dropWhile_le [of is_space s] by simp
qed

lemma length_steps:
  "length (re_sub m_isolated_excl s) \<le> length s"
  "length (re_sub m_multi_excl s) \<le> length s"
  "length (re_sub m_artifact s) \<le> length s"
  "length (re_sub m_spaces s) \<le> length s"
proof -
  show "length (re_sub m_isolated_excl s) \<le> length s"
    by (rule length_re_sub_le) (use m_isolated_excl_shape(3) in \<open>fastforce dest: less_imp_le\<close>)
  show "length (re_sub m_multi_excl s) \<le> length s"
    by (rule length_re_sub_le) (use m_multi_excl_shape(3) in \<open>fastforce dest: less_imp_le\<close>)
  show "length (re_sub m_artifact s) \<le> length s"
    by (rule length_re_sub_le) (use m_artifact_shape(3) in \<open>fastforce dest: less_imp_le\<close>)
  show "length (re_sub m_spaces s) \<le> length s"
    by (rule length_re_sub_le) (use m_spaces_shape(3) in blast)
qed

lemma length_normalize_whitespace: "length (normalize_whitespace s) \<le> length s"
  unfolding normalize_whitespace_def
  using length_strip [of "re_sub m_spaces s"] length_steps(4) [of s] by simp

lemma length_remove_artifacts: "length (remove_artifacts s) \<le> length s"
proof -
  have "length (filter is_printable s) \<le> length s" by simp
  then show ?thesis
    unfolding remove_artifacts_def Let_def
    using length_steps(1) [of "filter is_printable s"]
      length_steps(2) [of "re_sub m_isolated_excl (filter is_printable s)"]
      length_steps(3) [of "re_sub m_multi_excl (re_sub m_isolated_excl (filter is_printable s))"]
    by linarith
qed

lemma length_remove_escapes: "length (remove_escapes s) \<le> length s"
proof -
  have r: "length new \<le> length old \<Longrightarrow> length (replace old new t) \<le> length t" for old new t
    by (rule length_replace_le)
  define t1 where "t1 = replace [bslash, dquote] [dquote] s"
  define t2 where "t2 = replace [bslash, squote] [squote] t1"
  define t3 where "t3 = replace [bslash, bslash] [bslash] t2"
  define t4 where "t4 = replace [bslash, CHR ''.''] ''.'' t3"
  define t5 where "t5 = replace [bslash, CHR '',''] '','' t4"
  define t6 where "t6 = replace [bslash, CHR ''!''] ''!'' t5"
  define t7 where "t7 = replace [bslash, CHR ''?''] ''?'' t6"
  define t8 where "t8 = replace [bslash] [] t7"
  have "length t1 \<le> length s" "length t2 \<le> length t1" "length t3 \<le> length t2"
    "length t4 \<le> length t3" "length t5 \<le> length t4" "length t6 \<le> length t5"
    "length t7 \<le> length t6" "length t8 \<le> length t7"
    unfolding t1_def t2_def t3_def t4_def t5_def t6_def t7_def t8_def by (rule r; simp)+
  then have "length t8 \<le> length s" by linarith
  moreover have "remove_escapes s = t8"
    by (simp add: remove_escapes_def Let_def t1_def t2_def t3_def t4_def t5_def t6_def t7_def t8_def)
  ultimately show ?thesis by simp
qed

lemma second_pass_changed:
  assumes idem: "clean_text (clean_text x) = clean_text x"
  shows "(\<forall>(entity, character) \<in> set html_entities. \<not> str_in entity (clean_text x))
         \<and> re_search m_isolated_excl (clean_text x) = None
         \<and> re_search m_artifact (clean_text x) = None"
proof (cases "clean_text x = []")
  case True
  have "\<forall>(entity, character) \<in> set html_entities. \<not> str_in entity []"
    by (simp add: html_entities_def)
  moreover have "re_search m_isolated_excl [] = None" "re_search m_artifact [] = None"
    by (simp_all add: m_isolated_excl_def m_artifact_def plus_def)
  ultimately show ?thesis unfolding True by blast
next
  case False
  define y where "y = clean_text x"
  define a where "a = replace_entities y"
  have yne: "y \<noteq> []" using False unfolding y_def .
  have idy: "clean_text y = y" using idem unfolding y_def .
  have "clean_text y = normalize_whitespace (remove_artifacts (remove_escapes a))"
    using yne by (simp add: a_def clean_text_def)
  then have ct: "y = normalize_whitespace (remove_artifacts (remove_escapes a))"
    using idy by simp
  have "length y \<le> length (remove_artifacts (remove_escapes a))"
    using length_normalize_whitespace [of "remove_artifacts (remove_escapes a)"] ct by simp
  also have "\<dots> \<le> length (remove_escapes a)" by (rule length_remove_artifacts)
  also have "\<dots> \<le> length a" by (rule length_remove_escapes)
  finally have "length y \<le> length a" .
  then have "length a = length y" using length_replace_entities(1) [of y] by (simp add: a_def)
  then have E: "\<forall>(entity, character) \<in> set html_entities. \<not> str_in entity y"
    unfolding a_def by (rule length_replace_entities(2))
  then have ay: "a = y" unfolding a_def by (rule replace_entities_id)
  have st: "remove_escapes y = y" "filter is_printable y = y" "re_sub m_multi_excl y = y"
    unfolding y_def by (rule clean_text_early_steps)+
  define b where "b = re_sub m_isolated_excl y"
  have ra: "remove_artifacts y = re_sub m_artifact (re_sub m_multi_excl b)"
    by (simp add: remove_artifacts_def Let_def st b_def)
  have ct': "y = normalize_whitespace (remove_artifacts y)" using ct unfolding ay st(1) .
  have ny: "length y \<le> length (remove_artifacts y)"
    using length_normalize_whitespace [of "remove_artifacts y", folded ct'] .
  note ny
  also have "\<dots> \<le> length (re_sub m_multi_excl b)" unfolding ra by (rule length_steps)
  also have "\<dots> \<le> length b" by (rule length_steps)
  finally have lb: "length y \<le> length b" .
  have I: "re_search m_isolated_excl y = None"
  proof (rule ccontr)
    assume "re_search m_isolated_excl y \<noteq> None"
    then have "length (re_sub m_isolated_excl y) < length y"
      by (intro length_re_sub_less m_isolated_excl_shape(3))
    then show False using lb by (simp add: b_def)
  qed
  then have by': "b = y" unfolding b_def by (rule re_sub_id)
  have ly: "length y \<le> length (re_sub m_artifact y)"
    using ny unfolding ra by' st(3) .
  have A: "re_search m_artifact y = None"
  proof (rule ccontr)
    assume "re_search m_artifact y \<noteq> None"
    then have "length (re_sub m_artifact y) < length y"
      by (intro length_re_sub_less m_artifact_shape(3))
    then show False using ly by simp
  qed
  from E I A show ?thesis unfolding y_def by blast
qed

text \<open>
  C3, amended: each entity of the table is mapped to its character, trimmed (so \<open>&nbsp;\<close>
  gives the empty string), and a second pass leaves that result as it is. For every
  input, a second pass leaves the result of \<open>clean_text\<close> as it is exactly when the
  result holds no entity of the table, no run of exclamation marks between whitespace
  and no run of other symbols between whitespace, that is, when the patterns
  \<open>\<bslash>s+!+\<bslash>s+\<close> and \<open>\<bslash>s+[^\<bslash>w\<bslash>s\<bslash>.\<bslash>,\<bslash>!\<bslash>?\<bslash>-\<bslash>(\<bslash>)]+\<bslash>s+\<close> match nowhere in it.
\<close>

theorem clean_text_entities:
  "(\<forall>(entity, character) \<in> set html_entities.
      clean_text entity = strip character \<and> clean_text (clean_text entity) = clean_text entity)
   \<and> (clean_text (clean_text x) = clean_text x \<longleftrightarrow>
        (\<forall>(entity, character) \<in> set html_entities. \<not> str_in entity (clean_text x))
        \<and> re_search m_isolated_excl (clean_text x) = None
        \<and> re_search m_artifact (clean_text x) = None)"
proof -
  have "\<forall>(entity, character) \<in> set html_entities.
     clean_text entity = strip character \<and> clean_text (clean_text entity) = clean_text entity"
    by code_simp
  then show ?thesis using second_pass_unchanged [of x] second_pass_changed [of x] by blast
qed

text \<open>
  The entity \<open>&amp;\<close>; a sentence with an apostrophe, a colon and slashes, on which a
  second pass changes nothing; and a text with two lone exclamation marks, of which each
  pass removes one.
\<close>

theorem clean_text_entities_witness:
  "clean_text ''&amp;'' = ''&'' \<and> clean_text (clean_text ''&amp;'') = clean_text ''&amp;''
   \<and> clean_text (''it'' @ [squote] @ ''s  5:30 (ok);  see http://x/y '') = (''it'' @ [squote] @ ''s 5:30 (ok); see http://x/y'')
   \<and> clean_text (clean_text (''it'' @ [squote] @ ''s  5:30 (ok);  see http://x/y '')) = clean_text (''it'' @ [squote] @ ''s  5:30 (ok);  see http://x/y '')
   \<and> clean_text ''a ! ! b'' = ''a ! b''
   \<and> clean_text (clean_text ''a ! ! b'') \<noteq> clean_text ''a ! ! b''"
proof -
  have a: "(''&amp;'', ''&'') \<in> set html_entities" by (simp add: html_entities_def)
  have b: "strip ''&'' = ''&''" by code_simp
  note r = clean_text_entities [of "(''it'' @ [squote] @ ''s  5:30 (ok);  see http://x/y '')"]
  from r have r1: "\<forall>(entity, character) \<in> set html_entities.
     clean_text entity = strip character \<and> clean_text (clean_text entity) = clean_text entity"
    by (rule conjunct1)
  have "clean_text ''&amp;'' = strip ''&'' \<and> clean_text (clean_text ''&amp;'') = clean_text ''&amp;''"
    using bspec [OF r1 a] unfolding prod.case .
  then have 1: "clean_text ''&amp;'' = ''&''" and 2: "clean_text (clean_text ''&amp;'') = clean_text ''&amp;''"
    unfolding b by (rule conjunct1, rule conjunct2)
  have c: "clean_text (''it'' @ [squote] @ ''s  5:30 (ok);  see http://x/y '') = (''it'' @ [squote] @ ''s 5:30 (ok); see http://x/y'')" by code_simp
  have e: "\<forall>(entity, character) \<in> set html_entities. \<not> str_in entity (''it'' @ [squote] @ ''s 5:30 (ok); see http://x/y'')" by code_simp
  have i: "re_search m_isolated_excl (''it'' @ [squote] @ ''s 5:30 (ok); see http://x/y'') = None" by code_simp
  have s: "re_search m_artifact (''it'' @ [squote] @ ''s 5:30 (ok); see http://x/y'') = None" by code_simp
  from r have "clean_text (clean_text (''it'' @ [squote] @ ''s  5:30 (ok);  see http://x/y '')) = clean_text (''it'' @ [squote] @ ''s  5:30 (ok);  see http://x/y '') \<longleftrightarrow>
        (\<forall>(entity, character) \<in> set html_entities. \<not> str_in entity (clean_text (''it'' @ [squote] @ ''s  5:30 (ok);  see http://x/y '')))
        \<and> re_search m_isolated_excl (clean_text (''it'' @ [squote] @ ''s  5:30 (ok);  see http://x/y '')) = None
        \<and> re_search m_artifact (clean_text (''it'' @ [squote] @ ''s  5:30 (ok);  see http://x/y '')) = None"
    by (rule conjunct2)
  then have 3: "clean_text (clean_text (''it'' @ [squote] @ ''s  5:30 (ok);  see http://x/y '')) = clean_text (''it'' @ [squote] @ ''s  5:30 (ok);  see http://x/y '')"
    using e i s unfolding c by blast
  have d: "clean_text ''a ! ! b'' = ''a ! b''" by code_simp
  have n: "re_search m_isolated_excl ''a ! b'' \<noteq> None" by code_simp
  from clean_text_entities [of "''a ! ! b''"]
  have "clean_text (clean_text ''a ! ! b'') = clean_text ''a ! ! b'' \<longleftrightarrow>
        (\<forall>(entity, character) \<in> set html_entities. \<not> str_in entity (clean_text ''a ! ! b''))
        \<and> re_search m_isolated_excl (clean_text ''a ! ! b'') = None
        \<and> re_search m_artifact (clean_text ''a ! ! b'') = None"
    by (rule conjunct2)
  then have 4: "clean_text (clean_text ''a ! ! b'') \<noteq> clean_text ''a ! ! b''"
    using n unfolding d by blast
  from 1 2 c 3 d 4 show ?thesis by blast
qed

section \<open>The image classifier and the image loop\<close>

lemma str_in_lower: "lower p = p \<Longrightarrow> str_in p s \<Longrightarrow> str_in p (lower s)"
proof -
  assume l: "lower p = p" and "str_in p s"
  then obtain a b where "s = a @ p @ b" unfolding str_in_iff by blast
  then have "lower s = lower a @ p @ lower b" using l by (simp add: lower_def)
  then show ?thesis unfolding str_in_iff by blast
qed

lemma skip_patterns_lower: "pattern \<in> set skip_patterns \<Longrightarrow> lower pattern = pattern"
proof -
  have "\<forall>p \<in> set skip_patterns. lower p = p" by code_simp
  then show "pattern \<in> set skip_patterns \<Longrightarrow> lower pattern = pattern" by blast
qed

lemma is_content_image_iff:
  "is_content_image src alt \<longleftrightarrow>
   \<not> list_ex (\<lambda>pattern. str_in pattern (lower src) \<or> str_in pattern (lower alt)) skip_patterns"
proof -
  have sizes: "set [''w_36'', ''w_48'', ''w_64'', ''h_36'', ''h_48'', ''h_64''] \<subseteq> set skip_patterns"
    by (simp add: skip_patterns_def)
  have subs: "''substack.com/@'' \<in> set skip_patterns"
    "''bucketeer-e05bbc84-baa3-437e-9518-adb32be77984.s3.amazonaws.com'' \<in> set skip_patterns"
    by (simp_all add: skip_patterns_def)
  have raw: "p \<in> set skip_patterns \<Longrightarrow> str_in p src \<Longrightarrow>
      list_ex (\<lambda>pattern. str_in pattern (lower src) \<or> str_in pattern (lower alt)) skip_patterns" for p
    unfolding list_ex_iff using str_in_lower skip_patterns_lower by blast
  have a: "list_ex (\<lambda>size. str_in size src) [''w_36'', ''w_48'', ''w_64'', ''h_36'', ''h_48'', ''h_64''] \<Longrightarrow>
      list_ex (\<lambda>pattern. str_in pattern (lower src) \<or> str_in pattern (lower alt)) skip_patterns"
    using raw sizes unfolding list_ex_iff [of _ "[''w_36'', ''w_48'', ''w_64'', ''h_36'', ''h_48'', ''h_64'']"] by blast
  show ?thesis unfolding is_content_image_def Let_def using a raw subs by auto
qed

text \<open>
  C7: an image is refused as soon as its URL or its alternative text holds one of the
  decorative patterns (\<open>avatar\<close>, \<open>logo\<close>, \<open>w_36\<close> and the others), as written or in another
  case, whatever else they hold; and it is accepted when the URL holds \<open>w_1456\<close> and
  neither the URL nor the text, in lower case, holds a decorative pattern.
\<close>

theorem is_content_image_decorative:
  "(pattern \<in> set skip_patterns \<and> (str_in pattern url \<or> str_in pattern alt) \<longrightarrow> \<not> is_content_image url alt)
   \<and> (pattern \<in> set skip_patterns \<and> (str_in pattern (lower url) \<or> str_in pattern (lower alt))
        \<longrightarrow> \<not> is_content_image url alt)
   \<and> (str_in ''w_1456'' url
        \<and> \<not> list_ex (\<lambda>pattern. str_in pattern (lower url) \<or> str_in pattern (lower alt)) skip_patterns
        \<longrightarrow> is_content_image url alt)"
  unfolding is_content_image_iff list_ex_iff using str_in_lower skip_patterns_lower by blast

theorem is_content_image_decorative_witness:
  "\<not> is_content_image ''http://cdn/Avatar.png'' ''Ann'' \<and> \<not> is_content_image ''http://cdn/a.png'' ''site logo''
   \<and> \<not> is_content_image ''http://cdn/w_36/a.png'' []
   \<and> is_content_image ''http://cdn/w_1456/a.png'' []"
proof -
  have m: "''avatar'' \<in> set skip_patterns" "''logo'' \<in> set skip_patterns" "''w_36'' \<in> set skip_patterns"
    by (simp_all add: skip_patterns_def)
  have 1: "str_in ''avatar'' (lower ''http://cdn/Avatar.png'')" by code_simp
  have 2: "str_in ''logo'' ''site logo''" by code_simp
  have 3: "str_in ''w_36'' ''http://cdn/w_36/a.png''" by code_simp
  have 4: "str_in ''w_1456'' ''http://cdn/w_1456/a.png''" by code_simp
  have 5: "\<not> list_ex (\<lambda>pattern. str_in pattern (lower ''http://cdn/w_1456/a.png'') \<or> str_in pattern (lower [])) skip_patterns"
    by code_simp
  show ?thesis
    using is_content_image_decorative [of "''avatar''" "''http://cdn/Avatar.png''" "''Ann''"]
      is_content_image_decorative [of "''logo''" "''http://cdn/a.png''" "''site logo''"]
      is_content_image_decorative [of "''w_36''" "''http://cdn/w_36/a.png''" "[]"]
      is_content_image_decorative [of "''w_1456''" "''http://cdn/w_1456/a.png''" "[]"]
      m 1 2 3 4 5 by blast
qed

lemma collect_images_step:
  "collect_images (img # images) seen kept =
     (if acceptable img \<and> key_of img \<notin> seen
      then collect_images images (insert (key_of img) seen) (kept @ [img])
      else collect_images images seen kept)"
  by (cases img) (simp add: acceptable_def key_of_def)

lemma keys_snoc: "insert (key_of x) (key_of ` set kept) = key_of ` set (kept @ [x])"
  by auto

lemma collect_images_append:
  "collect_images (xs @ ys) (key_of ` set kept) kept =
   collect_images ys (key_of ` set (collect_images xs (key_of ` set kept) kept))
     (collect_images xs (key_of ` set kept) kept)"
proof (induction xs arbitrary: kept)
  case Nil
  then show ?case by simp
next
  case (Cons x xs)
  show ?case
  proof (cases "acceptable x \<and> key_of x \<notin> key_of ` set kept")
    case True
    then have "collect_images ((x # xs) @ ys) (key_of ` set kept) kept =
        collect_images (xs @ ys) (key_of ` set (kept @ [x])) (kept @ [x])"
      and "collect_images (x # xs) (key_of ` set kept) kept =
        collect_images xs (key_of ` set (kept @ [x])) (kept @ [x])"
      unfolding append_Cons collect_images_step keys_snoc by simp_all
    then show ?thesis using Cons [of "kept @ [x]"] by simp
  next
    case False
    then have "collect_images ((x # xs) @ ys) (key_of ` set kept) kept =
        collect_images (xs @ ys) (key_of ` set kept) kept"
      and "collect_images (x # xs) (key_of ` set kept) kept =
        collect_images xs (key_of ` set kept) kept"
      unfolding append_Cons collect_images_step by auto
    then show ?thesis using Cons [of kept] by simp
  qed
qed

lemma collect_images_inv:
  "distinct (map key_of kept) \<Longrightarrow>
   distinct (map key_of (collect_images images (key_of ` set kept) kept))
   \<and> (\<exists>new. collect_images images (key_of ` set kept) kept = kept @ new \<and> subseq new images)"
proof (induction images arbitrary: kept)
  case Nil
  then show ?case by simp
next
  case (Cons x xs)
  show ?case
  proof (cases "acceptable x \<and> key_of x \<notin> key_of ` set kept")
    case True
    have d: "distinct (map key_of (kept @ [x]))" using True Cons.prems by auto
    have c: "collect_images (x # xs) (key_of ` set kept) kept =
        collect_images xs (key_of ` set (kept @ [x])) (kept @ [x])"
      using True unfolding collect_images_step keys_snoc by simp
    from Cons.IH [OF d] obtain new where n:
      "distinct (map key_of (collect_images xs (key_of ` set (kept @ [x])) (kept @ [x])))"
      "collect_images xs (key_of ` set (kept @ [x])) (kept @ [x]) = (kept @ [x]) @ new" "subseq new xs"
      by blast
    have "collect_images (x # xs) (key_of ` set kept) kept = kept @ (x # new)"
      unfolding c n(2) by simp
    moreover have "subseq (x # new) (x # xs)" using n(3) by simp
    ultimately show ?thesis using n(1) c by metis
  next
    case False
    have c: "collect_images (x # xs) (key_of ` set kept) kept =
        collect_images xs (key_of ` set kept) kept"
      using False unfolding collect_images_step by auto
    from Cons.IH [OF Cons.prems] obtain new where n:
      "distinct (map key_of (collect_images xs (key_of ` set kept) kept))"
      "collect_images xs (key_of ` set kept) kept = kept @ new" "subseq new xs"
      by blast
    have "subseq new (x # xs)" using n(3) by (rule list_emb_Cons)
    then show ?thesis using n(1,2) c by metis
  qed
qed

text \<open>
  C6: in the list of kept images no two have the same base key; the list is a
  subsequence of the images found, so the order of discovery is kept; and an image
  further on is appended exactly when it is acceptable and no kept image has its base
  key. Two images of different URLs and the same key are thus kept once, the first one.
\<close>

theorem collect_images_dedup:
  "distinct (map key_of (collect_images images {} []))
   \<and> subseq (collect_images images {} []) images
   \<and> collect_images (images @ [img]) {} [] =
       collect_images images {} []
       @ (if acceptable img \<and> key_of img \<notin> key_of ` set (collect_images images {} [])
          then [img] else [])"
proof -
  have "distinct (map key_of ([] :: (string \<times> string) list))" by simp
  from collect_images_inv [OF this, of images]
  have 1: "distinct (map key_of (collect_images images {} []))"
    and 2: "subseq (collect_images images {} []) images" by auto
  define K where "K = collect_images images {} []"
  have "collect_images (images @ [img]) (key_of ` set []) [] =
    collect_images [img] (key_of ` set (collect_images images (key_of ` set []) []))
     (collect_images images (key_of ` set []) [])"
    by (rule collect_images_append)
  then have "collect_images (images @ [img]) {} [] = collect_images [img] (key_of ` set K) K"
    by (simp add: K_def)
  also have "\<dots> = K @ (if acceptable img \<and> key_of img \<notin> key_of ` set K then [img] else [])"
    unfolding collect_images_step by simp
  finally have 3: "collect_images (images @ [img]) {} [] =
       collect_images images {} []
       @ (if acceptable img \<and> key_of img \<notin> key_of ` set (collect_images images {} [])
          then [img] else [])" unfolding K_def .
  from 1 2 3 show ?thesis by blast
qed

section \<open>The base key and the size parameters\<close>
































section \<open>The story of \<open>create_pdf\<close>\<close>

lemma length_sections: "length (sections w images articles) = length articles"
  by (induction articles arbitrary: images) auto

lemma process_articles_sections:
  "i + length articles = Suc n \<Longrightarrow>
   fst (process_articles w n i articles (story, images)) = story @ join_sections (sections w images articles)"
proof (induction articles arbitrary: i story images)
  case Nil
  then show ?case by simp
next
  case (Cons a articles)
  obtain blocks images' where sec: "article_section w images a = (blocks, images')"
    by (cases "article_section w images a")
  define S where "S = sections w images' articles"
  have secs: "sections w images (a # articles) = blocks # S" using sec by (simp add: S_def)
  have step: "fst (process_articles w n i (a # articles) (story, images)) =
      fst (process_articles w n (Suc i) articles (story @ blocks @ (if i < n then [PageBreak] else []), images'))"
    using sec by simp
  have "Suc i + length articles = Suc n" using Cons.prems by simp
  from Cons.IH [OF this]
  have ih: "fst (process_articles w n (Suc i) articles (story @ blocks @ (if i < n then [PageBreak] else []), images'))
      = (story @ blocks @ (if i < n then [PageBreak] else [])) @ join_sections S"
    by (simp add: S_def)
  have len: "length S = length articles" by (simp add: S_def length_sections)
  show ?case
  proof (cases S)
    case Nil
    then have "articles = []" using len by simp
    then have "\<not> i < n" using Cons.prems by simp
    then show ?thesis unfolding step ih secs Nil by simp
  next
    case (Cons s ss)
    then have "articles \<noteq> []" using len by auto
    then have "i < n" using Cons.prems by (cases articles) simp_all
    then show ?thesis unfolding step ih secs Cons by simp
  qed
qed

lemma article_header_flow: "PageBreak \<notin> set (article_header a)"
  by (simp add: article_header_def)

lemma article_section_flow: "PageBreak \<notin> set (fst (article_section w images a))"
  by (auto simp: article_section_def article_header_def split: prod.splits)

lemma article_section_nonempty: "fst (article_section w images a) \<noteq> []"
  by (auto simp: article_section_def article_header_def split: prod.splits)

lemma sections_flow: "s \<in> set (sections w images articles) \<Longrightarrow> PageBreak \<notin> set s \<and> s \<noteq> []"
  by (induction articles arbitrary: images) (auto simp: article_section_flow article_section_nonempty)

lemma last_join_sections:
  "ss \<noteq> [] \<Longrightarrow> (\<And>s. s \<in> set ss \<Longrightarrow> PageBreak \<notin> set s \<and> s \<noteq> []) \<Longrightarrow>
   join_sections ss \<noteq> [] \<and> last (join_sections ss) \<noteq> PageBreak"
proof (induction ss rule: join_sections.induct)
  case 1
  then show ?case by simp
next
  case (2 s)
  then have "s \<noteq> []" "PageBreak \<notin> set s" by auto
  then show ?case using last_in_set by fastforce
next
  case (3 s t ss)
  then have "join_sections (t # ss) \<noteq> [] \<and> last (join_sections (t # ss)) \<noteq> PageBreak" by simp
  then show ?case by simp
qed

lemma count_join_sections:
  "(\<And>s. s \<in> set ss \<Longrightarrow> PageBreak \<notin> set s) \<Longrightarrow>
   length (filter (\<lambda>f. f = PageBreak) (join_sections ss)) = length ss - 1"
proof (induction ss rule: join_sections.induct)
  case 1
  then show ?case by simp
next
  case (2 s)
  then have "PageBreak \<notin> set s" by simp
  then have "filter (\<lambda>f. f = PageBreak) s = []" by (auto simp: filter_empty_conv)
  then show ?case by simp
next
  case (3 s t ss)
  then have "PageBreak \<notin> set s" by simp
  then have "filter (\<lambda>f. f = PageBreak) s = []" by (auto simp: filter_empty_conv)
  moreover have "length (filter (\<lambda>f. f = PageBreak) (join_sections (t # ss))) = length (t # ss) - 1"
    using 3 by simp
  ultimately show ?case by simp
qed

text \<open>
  C5: when the list of articles that is assembled (the feed, cut to the cap) is not empty,
  the story is the title page followed by the sections of the articles with one
  \<open>PageBreak\<close> between two consecutive sections; no section holds a \<open>PageBreak\<close>, there is a
  section for each article, and the last flowable of the story is not a \<open>PageBreak\<close>. The
  story then holds as many page breaks as articles: the one of the title page and one
  between two articles.
\<close>

theorem create_pdf_page_breaks:
  assumes "create_pdf w current_article_images feed_url max_articles = Some story"
    and "truncate_articles (fetch_rss_feed w feed_url) max_articles = articles"
    and "articles \<noteq> []"
  shows "story = title_page feed_url (now w) (length articles)
                 @ join_sections (sections w current_article_images articles)
         \<and> (\<forall>s \<in> set (sections w current_article_images articles). PageBreak \<notin> set s)
         \<and> length (sections w current_article_images articles) = length articles
         \<and> length (filter (\<lambda>f. f = PageBreak) story) = length articles
         \<and> last story \<noteq> PageBreak"
proof -
  define S where "S = sections w current_article_images articles"
  have "1 + length articles = Suc (length articles)" by simp
  from process_articles_sections [OF this]
  have st: "story = title_page feed_url (now w) (length articles) @ join_sections S"
    using assms by (auto simp: S_def create_pdf_def Let_def split: if_splits)
  have flow: "\<And>s. s \<in> set S \<Longrightarrow> PageBreak \<notin> set s \<and> s \<noteq> []"
    unfolding S_def by (rule sections_flow)
  have len: "length S = length articles"
    unfolding S_def by (rule length_sections)
  then have ne: "S \<noteq> []" using assms(3) by auto
  have "length (filter (\<lambda>f. f = PageBreak) (join_sections S)) = length S - 1"
    using flow by (intro count_join_sections) blast
  moreover have "length (filter (\<lambda>f. f = PageBreak) (title_page feed_url (now w) (length articles))) = 1"
    by (simp add: title_page_def)
  ultimately have cnt: "length (filter (\<lambda>f. f = PageBreak) story) = length articles"
    unfolding st using len ne by (cases S) simp_all
  from last_join_sections [OF ne flow]
  have "join_sections S \<noteq> []" "last (join_sections S) \<noteq> PageBreak" by blast+
  then have "last story \<noteq> PageBreak" unfolding st by simp
  with st flow len cnt show ?thesis unfolding S_def by blast
qed

text \<open>
  A feed of two entries with \<open>max_articles = 1\<close>: the story is the title page and the
  section of the first article, with no page break after it.
\<close>

theorem create_pdf_page_breaks_witness:
  "create_pdf two_article_world [] ''http://feed'' (Some 1)
     = Some (title_page ''http://feed'' ''2024-01-01 00:00'' 1 @ article_header (hd two_articles)
             @ [Flow (Paragraph ''Content could not be extracted.'' content_style)])
   \<and> length (sections two_article_world [] (truncate_articles two_articles (Some 1))) = 1
   \<and> length (filter (\<lambda>f. f = PageBreak)
        (title_page ''http://feed'' ''2024-01-01 00:00'' 1 @ article_header (hd two_articles)
          @ [Flow (Paragraph ''Content could not be extracted.'' content_style)])) = 1
   \<and> last (title_page ''http://feed'' ''2024-01-01 00:00'' 1 @ article_header (hd two_articles)
          @ [Flow (Paragraph ''Content could not be extracted.'' content_style)]) \<noteq> PageBreak"
proof -
  have c: "create_pdf two_article_world [] ''http://feed'' (Some 1)
     = Some (title_page ''http://feed'' ''2024-01-01 00:00'' 1 @ article_header (hd two_articles)
             @ [Flow (Paragraph ''Content could not be extracted.'' content_style)])"
    by code_simp
  have t: "truncate_articles (fetch_rss_feed two_article_world ''http://feed'') (Some 1)
      = truncate_articles two_articles (Some 1)"
    by (simp add: two_article_world_def)
  have n: "truncate_articles two_articles (Some 1) \<noteq> []" by code_simp
  have l: "length (truncate_articles two_articles (Some 1)) = 1" by code_simp
  note r = create_pdf_page_breaks [OF c t n]
  from r have 1: "length (sections two_article_world [] (truncate_articles two_articles (Some 1)))
      = length (truncate_articles two_articles (Some 1))" by blast
  from r have 2: "length (filter (\<lambda>f. f = PageBreak)
        (title_page ''http://feed'' ''2024-01-01 00:00'' 1 @ article_header (hd two_articles)
          @ [Flow (Paragraph ''Content could not be extracted.'' content_style)]))
      = length (truncate_articles two_articles (Some 1))" by blast
  from r have 3: "last (title_page ''http://feed'' ''2024-01-01 00:00'' 1 @ article_header (hd two_articles)
          @ [Flow (Paragraph ''Content could not be extracted.'' content_style)]) \<noteq> PageBreak"
    by blast
  from c 1 2 3 show ?thesis unfolding l by blast
qed

text \<open>
  The hypothesis on the assembled list is needed: a negative cap can empty the list of a
  feed that has articles, and then the page break of the title page ends the story.
\<close>

lemma create_pdf_negative_cap:
  "create_pdf two_article_world [] ''http://feed'' (Some (- 2))
     = Some (title_page ''http://feed'' ''2024-01-01 00:00'' 0)"
  by code_simp

section \<open>A cap of zero\<close>

text \<open>
  C10: a cap of 0 is no cap. The list is not cut, \<open>create_pdf\<close> returns what it returns
  with no cap, and on a feed that has articles the story holds a section for every
  article of the feed.
\<close>

theorem create_pdf_zero_cap:
  assumes "fetch_rss_feed w feed_url \<noteq> []"
  shows "truncate_articles (fetch_rss_feed w feed_url) (Some 0) = fetch_rss_feed w feed_url
         \<and> create_pdf w current_article_images feed_url (Some 0)
             = create_pdf w current_article_images feed_url None
         \<and> create_pdf w current_article_images feed_url (Some 0)
             = Some (title_page feed_url (now w) (length (fetch_rss_feed w feed_url))
                     @ join_sections (sections w current_article_images (fetch_rss_feed w feed_url)))
         \<and> length (sections w current_article_images (fetch_rss_feed w feed_url))
             = length (fetch_rss_feed w feed_url)"
proof -
  have t: "truncate_articles (fetch_rss_feed w feed_url) (Some 0) = fetch_rss_feed w feed_url"
    by (simp add: truncate_articles_def)
  have "1 + length (fetch_rss_feed w feed_url) = Suc (length (fetch_rss_feed w feed_url))" by simp
  from process_articles_sections [OF this] assms t show ?thesis
    by (simp add: create_pdf_def Let_def truncate_articles_def length_sections)
qed

theorem create_pdf_zero_cap_witness:
  "create_pdf two_article_world [] ''http://feed'' (Some 0)
     = create_pdf two_article_world [] ''http://feed'' None
   \<and> length (sections two_article_world [] two_articles) = 2"
proof -
  have f: "fetch_rss_feed two_article_world ''http://feed'' = two_articles"
    by (simp add: two_article_world_def)
  have n: "two_articles \<noteq> []" by (simp add: two_articles_def)
  have l: "length two_articles = 2" by (simp add: two_articles_def)
  show ?thesis
    using create_pdf_zero_cap [of two_article_world "''http://feed''" "[]"] n l
    unfolding f by simp
qed

section \<open>An article whose extraction fails\<close>

lemma extract_None:
  "fst (extract_article_content lib images url) = None \<Longrightarrow>
   extract_article_content lib images url = (None, images)"
  by (auto simp: extract_article_content_def Let_def split: option.splits if_splits)

lemma extract_fetch_fails:
  "fetch_page lib (takeWhile (\<lambda>c. c \<noteq> CHR ''#'') url) = None \<Longrightarrow>
   extract_article_content lib images url = (None, images)"
  by (simp add: extract_article_content_def)

text \<open>
  C8: when the extraction of an article returns \<open>None\<close>, the section of the article is its
  header followed by the one placeholder paragraph, it holds no image, and the loop goes
  on with the articles that follow.
\<close>

theorem failed_article_placeholder:
  assumes "fst (extract_article_content (library w) images (link a)) = None"
  shows "fst (article_section w images a) =
           article_header a @ [Flow (Paragraph ''Content could not be extracted.'' content_style)]
         \<and> (\<forall>width height. Flow (Image width height) \<notin> set (fst (article_section w images a)))
         \<and> process_articles w n i (a # articles) (story, images) =
             process_articles w n (Suc i) articles
               (story @ article_header a
                  @ [Flow (Paragraph ''Content could not be extracted.'' content_style)]
                  @ (if i < n then [PageBreak] else []), images)"
proof -
  have e: "extract_article_content (library w) images (link a) = (None, images)"
    using assms by (rule extract_None)
  then have s: "article_section w images a =
      (article_header a @ [Flow (Paragraph ''Content could not be extracted.'' content_style)], images)"
    by (simp add: article_section_def falsy_def)
  have "\<forall>width height. Flow (Image width height) \<notin> set (article_header a)"
    by (simp add: article_header_def)
  then show ?thesis using s by simp
qed

text \<open>
  For the article of the example feed whose page cannot be fetched: the section is the
  header and the placeholder, and the loop goes on with the second article.
\<close>

theorem failed_article_placeholder_witness:
  "fst (article_section two_article_world [] (hd two_articles))
     = article_header (hd two_articles)
       @ [Flow (Paragraph ''Content could not be extracted.'' content_style)]
   \<and> process_articles two_article_world 2 1 two_articles ([], [])
     = process_articles two_article_world 2 2 (tl two_articles)
         (article_header (hd two_articles)
          @ [Flow (Paragraph ''Content could not be extracted.'' content_style), PageBreak], [])"
proof -
  have e: "fst (extract_article_content (library two_article_world) [] (link (hd two_articles))) = None"
    by code_simp
  have t: "hd two_articles # tl two_articles = two_articles" by (simp add: two_articles_def)
  have p: "(if (1::nat) < 2 then [PageBreak] else []) = [PageBreak]" by simp
  note r = failed_article_placeholder [OF e, of 2 1 "tl two_articles" "[]"]
  from r have 1: "fst (article_section two_article_world [] (hd two_articles))
     = article_header (hd two_articles)
       @ [Flow (Paragraph ''Content could not be extracted.'' content_style)]" by blast
  from r have "process_articles two_article_world 2 1 (hd two_articles # tl two_articles) ([], [])
     = process_articles two_article_world 2 (Suc 1) (tl two_articles)
         ([] @ article_header (hd two_articles)
          @ [Flow (Paragraph ''Content could not be extracted.'' content_style)]
          @ (if (1::nat) < 2 then [PageBreak] else []), [])" by blast
  then have 2: "process_articles two_article_world 2 1 two_articles ([], [])
     = process_articles two_article_world 2 2 (tl two_articles)
         (article_header (hd two_articles)
          @ [Flow (Paragraph ''Content could not be extracted.'' content_style), PageBreak], [])"
    unfolding t p by (simp only: Suc_1 append_Nil append_Cons)
  from 1 2 show ?thesis by blast
qed

end
